theory Spec2Isabelle
  imports Main "HOL-Library.AList"
begin

section \<open>The EC2 metadata crawler of \<^verbatim>\<open>library/cloud/ec2_facts.py\<close>\<close>

text \<open>
  The module crawls the instance metadata service over HTTP, collects every leaf in a
  table keyed by URI (\<^verbatim>\<open>self._data\<close>), renames the keys into a flat namespace and
  adds a region fact. The embedding follows the class \<^verbatim>\<open>Ec2Metadata\<close> method by
  method. Python names that start with an underscore lose it here (\<^verbatim>\<open>_fetch\<close> is
  \<open>fetch_url\<close>, \<^verbatim>\<open>_mangle_fields\<close> is \<open>mangle_fields\<close>, \<^verbatim>\<open>_data\<close> is
  \<open>data\<close>, \<^verbatim>\<open>_prefix\<close> is \<open>prefix_fmt\<close>).
\<close>

subsection \<open>Python strings\<close>

text \<open>
  A Python 2 \<^verbatim>\<open>str\<close> is a byte string: \<open>string\<close>. \<open>split_on c s\<close> is
  \<^verbatim>\<open>s.split(c)\<close> for a one-character separator: it always returns at least one
  piece, and a trailing separator yields a last empty piece. \<open>join sep xs\<close> is
  \<^verbatim>\<open>sep.join(xs)\<close>.
\<close>

definition newline :: char where
  "newline = CHR 0x0A"

fun split_on :: "char \<Rightarrow> string \<Rightarrow> string list" where
  "split_on c [] = [[]]"
| "split_on c (x # xs) =
     (if x = c then [] # split_on c xs
      else (case split_on c xs of
              [] \<Rightarrow> [[x]]
            | y # ys \<Rightarrow> (x # y) # ys))"

fun join :: "string \<Rightarrow> string list \<Rightarrow> string" where
  "join sep [] = []"
| "join sep [x] = x"
| "join sep (x # y # ys) = x @ sep @ join sep (y # ys)"

definition endswith :: "string \<Rightarrow> string \<Rightarrow> bool" where
  "endswith s suf = (length suf \<le> length s \<and> drop (length s - length suf) s = suf)"

definition startswith :: "string \<Rightarrow> string \<Rightarrow> bool" where
  "startswith s pre = (take (length pre) s = pre)"

definition replace_char :: "char \<Rightarrow> char \<Rightarrow> string \<Rightarrow> string" where
  "replace_char old new s = map (\<lambda>c. if c = old then new else c) s"

text \<open>
  \<^verbatim>\<open>re.search(pattern, key)\<close> for a pattern without regular-expression
  metacharacters, which is what the only pattern in the module, \<^verbatim>\<open>'public-keys-0'\<close>,
  is: the pattern occurs somewhere in the key.
\<close>

fun re_search :: "string \<Rightarrow> string \<Rightarrow> bool" where
  "re_search pattern [] = (pattern = [])"
| "re_search pattern (c # cs) = (startswith (c # cs) pattern \<or> re_search pattern cs)"

subsection \<open>The HTTP collaborator and the object\<close>

text \<open>
  \<^verbatim>\<open>urllib2.urlopen(url).read()\<close> returns a body, raises one of the two
  exceptions \<^verbatim>\<open>_fetch\<close> catches (\<^verbatim>\<open>HTTPError\<close> for an error status,
  \<^verbatim>\<open>URLError\<close> for a failure to connect), or raises something else:
  \<open>Timeout\<close> stands for the \<^verbatim>\<open>socket.timeout\<close> of a response that stalls
  while it is read, which is not a \<^verbatim>\<open>URLError\<close>, so that \<^verbatim>\<open>_fetch\<close> lets it
  through to its caller. The service may answer the same URL differently over time, so
  a behaviour of the collaborator is a function of the number of requests made so far
  and of the URL; \<open>requests\<close> is the log of the URLs requested so far, oldest first.

  Dictionaries are association lists with distinct keys, \<^verbatim>\<open>d[k] = v\<close> is
  \<open>AList.update\<close>, \<^verbatim>\<open>d.pop(k)\<close> is \<open>AList.delete\<close>, and the order of the list
  stands for the iteration order of the dictionary. A value is \<open>None\<close> where Python
  holds \<^verbatim>\<open>None\<close>.
\<close>

datatype response = Body string | HTTPError | URLError | Timeout

type_synonym http = "nat \<Rightarrow> string \<Rightarrow> response"

type_synonym table = "(string \<times> string option) list"

datatype error = AttributeError | SocketTimeout

record Ec2Metadata =
  uri_meta :: string
  uri_user :: string
  uri_ssh :: string
  data :: table
  requests :: "string list"

definition ec2_metadata_uri :: string where
  "ec2_metadata_uri = ''http://169.254.169.254/latest/meta-data/''"

definition ec2_sshdata_uri :: string where
  "ec2_sshdata_uri = ''http://169.254.169.254/latest/meta-data/public-keys/0/openssh-key''"

definition ec2_userdata_uri :: string where
  "ec2_userdata_uri = ''http://169.254.169.254/latest/user-data/''"

definition AWS_REGIONS :: "string list" where
  "AWS_REGIONS = [''ap-northeast-1'', ''ap-southeast-1'', ''ap-southeast-2'', ''eu-west-1'',
     ''sa-east-1'', ''us-east-1'', ''us-west-1'', ''us-west-2'']"

text \<open>\<^verbatim>\<open>x or default\<close>: the default replaces \<^verbatim>\<open>None\<close> and the empty string.\<close>

definition or_default :: "string option \<Rightarrow> string \<Rightarrow> string" where
  "or_default x d = (case x of None \<Rightarrow> d | Some s \<Rightarrow> if s = [] then d else s)"

definition init :: "string option \<Rightarrow> string option \<Rightarrow> string option \<Rightarrow> Ec2Metadata" where
  "init metadata_uri sshdata_uri userdata_uri =
     \<lparr> uri_meta = or_default metadata_uri ec2_metadata_uri,
       uri_user = or_default userdata_uri ec2_userdata_uri,
       uri_ssh = or_default sshdata_uri ec2_sshdata_uri,
       data = [],
       requests = [] \<rparr>"

definition prefix_fmt :: "string \<Rightarrow> string" where
  "prefix_fmt name = ''ansible_ec2_'' @ name"

definition fetch_url ::
  "http \<Rightarrow> string \<Rightarrow> Ec2Metadata \<Rightarrow> error + string option \<times> Ec2Metadata" where
  "fetch_url h url self =
     (case h (length (requests self)) url of
        Body b \<Rightarrow> Inr (Some b, self\<lparr>requests := requests self @ [url]\<rparr>)
      | HTTPError \<Rightarrow> Inr (None, self\<lparr>requests := requests self @ [url]\<rparr>)
      | URLError \<Rightarrow> Inr (None, self\<lparr>requests := requests self @ [url]\<rparr>)
      | Timeout \<Rightarrow> Inl SocketTimeout)"

subsection \<open>The crawl\<close>

text \<open>
  \<^verbatim>\<open>fetch\<close> calls itself for every listed directory, with nothing that bounds the
  depth, so the model takes fuel: the number of nested calls allowed. The result is
  \<open>None\<close> when the fuel runs out, \<open>Some (Inl e)\<close> when the Python raises \<open>e\<close>, and
  \<open>Some (Inr self')\<close> when it returns. \<open>fetch_fields\<close> is the \<^verbatim>\<open>for field in
  subfields\<close> loop. In the \<^verbatim>\<open>security-groups\<close> branch \<^verbatim>\<open>content.split\<close> is
  evaluated on whatever \<^verbatim>\<open>_fetch\<close> returned; on \<^verbatim>\<open>None\<close> that is an
  \<^verbatim>\<open>AttributeError\<close>. An exception \<^verbatim>\<open>_fetch\<close> lets through ends the crawl
  where it is raised: nothing in \<^verbatim>\<open>fetch\<close> or \<^verbatim>\<open>run\<close> catches it.
\<close>

fun fetch :: "nat \<Rightarrow> http \<Rightarrow> string \<Rightarrow> bool \<Rightarrow> Ec2Metadata \<Rightarrow> (error + Ec2Metadata) option"
and fetch_fields ::
  "nat \<Rightarrow> http \<Rightarrow> string \<Rightarrow> bool \<Rightarrow> string list \<Rightarrow> Ec2Metadata \<Rightarrow> (error + Ec2Metadata) option"
where
  "fetch 0 h uri recurse self = None"
| "fetch (Suc n) h uri recurse self =
     (case fetch_url h uri self of
        Inl e \<Rightarrow> Some (Inl e)
      | Inr (None, self1) \<Rightarrow> Some (Inr self1)
      | Inr (Some raw_subfields, self1) \<Rightarrow>
          if raw_subfields = [] then Some (Inr self1)
          else fetch_fields n h uri recurse (split_on newline raw_subfields) self1)"
| "fetch_fields n h uri recurse [] self = Some (Inr self)"
| "fetch_fields n h uri recurse (field # rest) self =
     (case (if endswith field ''/'' \<and> recurse then fetch n h (uri @ field) True self
            else Some (Inr self)) of
        None \<Rightarrow> None
      | Some (Inl e) \<Rightarrow> Some (Inl e)
      | Some (Inr self1) \<Rightarrow>
          (let new_uri = (if endswith uri ''/'' then uri @ field else uri @ ''/'' @ field)
           in if new_uri \<notin> fst ` set (data self1) \<and> \<not> endswith new_uri ''/'' then
                (case fetch_url h new_uri self1 of
                   Inl e \<Rightarrow> Some (Inl e)
                 | Inr (content, self2) \<Rightarrow>
                     if field = ''security-groups'' then
                       (case content of
                          None \<Rightarrow> Some (Inl AttributeError)
                        | Some c \<Rightarrow>
                            fetch_fields n h uri recurse rest
                              (self2\<lparr>data := AList.update new_uri
                                        (Some (join '','' (split_on newline c))) (data self2)\<rparr>))
                     else
                       fetch_fields n h uri recurse rest
                         (self2\<lparr>data := AList.update new_uri content (data self2)\<rparr>))
              else fetch_fields n h uri recurse rest self1))"

subsection \<open>Renaming, filtering and the region\<close>

text \<open>
  The body of the first loop of \<^verbatim>\<open>_mangle_fields\<close>: the key without its first
  \<^verbatim>\<open>len(uri)\<close> characters is split at the slashes and glued again, with hyphens when
  there is a second piece and it is not empty. Both branches then store the value under
  the prefixed \<^verbatim>\<open>new_key\<close>.
\<close>

definition new_key :: "string \<Rightarrow> string \<Rightarrow> string" where
  "new_key uri key =
     (let split_fields = split_on CHR ''/'' (drop (length uri) key)
      in if length split_fields > 1 \<and> split_fields ! 1 \<noteq> [] then join ''-'' split_fields
         else concat split_fields)"

definition mangle_entry :: "string \<Rightarrow> table \<Rightarrow> string \<times> string option \<Rightarrow> table" where
  "mangle_entry uri new_fields kv =
     (case kv of (key, value) \<Rightarrow> AList.update (prefix_fmt (new_key uri key)) value new_fields)"

text \<open>
  The inner filtering loop runs over \<^verbatim>\<open>new_fields.keys()\<close>, a list made before
  the loop starts, and pops the keys the pattern is found in. The keys of a dictionary
  are distinct, so the popped key is still there and \<^verbatim>\<open>pop\<close> cannot raise.
\<close>

definition filter_pattern :: "table \<Rightarrow> string \<Rightarrow> table" where
  "filter_pattern new_fields pattern =
     foldl (\<lambda>d key. if re_search pattern key then AList.delete key d else d)
       new_fields (map fst new_fields)"

definition mangle_fields :: "table \<Rightarrow> string \<Rightarrow> string list \<Rightarrow> table" where
  "mangle_fields raw_fields uri filter_patterns =
     foldl filter_pattern (foldl (mangle_entry uri) [] raw_fields) filter_patterns"

text \<open>
  \<^verbatim>\<open>fix_invalid_varnames\<close> runs over \<^verbatim>\<open>data.items()\<close>, again a list made
  before the loop, and stores the value under the new key. It does not remove the old
  key.
\<close>

definition fix_key :: "string \<Rightarrow> string" where
  "fix_key key = replace_char CHR ''-'' CHR ''_'' (replace_char CHR '':'' CHR ''_'' key)"

definition fix_entry :: "table \<Rightarrow> string \<times> string option \<Rightarrow> table" where
  "fix_entry d kv =
     (case kv of (key, value) \<Rightarrow>
        if CHR '':'' \<in> set key \<or> CHR ''-'' \<in> set key then AList.update (fix_key key) value d
        else d)"

definition fix_invalid_varnames :: "table \<Rightarrow> table" where
  "fix_invalid_varnames d = foldl fix_entry d d"

text \<open>
  The loop of \<^verbatim>\<open>add_ec2_region\<close>: the first known region the zone starts with, the
  zone itself when there is none. \<^verbatim>\<open>data.get\<close> gives \<^verbatim>\<open>None\<close> for a missing
  key and for a key that holds \<^verbatim>\<open>None\<close>.
\<close>

fun region_of :: "string \<Rightarrow> string list \<Rightarrow> string" where
  "region_of zone [] = zone"
| "region_of zone (r # rs) = (if startswith zone r then r else region_of zone rs)"

definition dict_get :: "table \<Rightarrow> string \<Rightarrow> string option" where
  "dict_get d k = (case map_of d k of None \<Rightarrow> None | Some v \<Rightarrow> v)"

definition add_ec2_region :: "table \<Rightarrow> table" where
  "add_ec2_region d =
     (case dict_get d ''ansible_ec2_placement_availability_zone'' of
        None \<Rightarrow> d
      | Some zone \<Rightarrow>
          AList.update ''ansible_ec2_placement_region'' (Some (region_of zone AWS_REGIONS)) d)"

subsection \<open>The whole operation\<close>

text \<open>
  \<^verbatim>\<open>run\<close> returns the flat table; the model returns the object next to it, so that
  the raw table the crawl left in \<open>data\<close> can be looked at.
\<close>

definition run :: "nat \<Rightarrow> http \<Rightarrow> Ec2Metadata \<Rightarrow> (error + table \<times> Ec2Metadata) option" where
  "run fuel h self =
     (case fetch fuel h (uri_meta self) True self of
        None \<Rightarrow> None
      | Some (Inl e) \<Rightarrow> Some (Inl e)
      | Some (Inr self1) \<Rightarrow>
          (let d0 = mangle_fields (data self1) (uri_meta self1) [''public-keys-0'']
           in case fetch_url h (uri_user self1) self1 of
                Inl e \<Rightarrow> Some (Inl e)
              | Inr (user_data, self2) \<Rightarrow>
                  (let d1 = AList.update (prefix_fmt ''user-data'') user_data d0
                   in case fetch_url h (uri_ssh self2) self2 of
                        Inl e \<Rightarrow> Some (Inl e)
                      | Inr (public_key, self3) \<Rightarrow>
                          (let d2 = AList.update (prefix_fmt ''public-key'') public_key d1
                           in Some (Inr (add_ec2_region (fix_invalid_varnames d2), self3))))))"

subsection \<open>Behaviours of the service used below\<close>

text \<open>Nothing answers: every request raises \<^verbatim>\<open>URLError\<close>.\<close>

definition unreachable :: http where
  "unreachable = (\<lambda>i url. URLError)"

text \<open>
  A small service behind \<^verbatim>\<open>http://host/meta/\<close>: an instance id, a placement
  directory with the availability zone, and the security groups. The user-data and
  key endpoints answer too; everything else is a 404.
\<close>

definition small_service :: http where
  "small_service = (\<lambda>i url.
     if url = ''http://host/meta/'' then
       Body (''instance-id'' @ [newline] @ ''placement/'' @ [newline] @ ''security-groups'')
     else if url = ''http://host/meta/instance-id'' then Body ''i-1234''
     else if url = ''http://host/meta/placement/'' then Body ''availability-zone''
     else if url = ''http://host/meta/placement/availability-zone'' then Body ''eu-west-1a''
     else if url = ''http://host/meta/security-groups'' then
       Body (''sg-a'' @ [newline] @ ''sg-b'' @ [newline] @ ''sg-c'')
     else if url = ec2_userdata_uri then Body ''#!/bin/sh''
     else if url = ec2_sshdata_uri then Body ''ssh-rsa AAAA''
     else HTTPError)"

text \<open>What \<open>run\<close> returns for \<open>small_service\<close>, and the object it leaves.\<close>

definition small_flat :: table where
  "small_flat =
     [(''ansible_ec2_instance-id'', Some ''i-1234''),
      (''ansible_ec2_placement-availability-zone'', Some ''eu-west-1a''),
      (''ansible_ec2_security-groups'', Some ''sg-a,sg-b,sg-c''),
      (''ansible_ec2_user-data'', Some ''#!/bin/sh''),
      (''ansible_ec2_public-key'', Some ''ssh-rsa AAAA''),
      (''ansible_ec2_instance_id'', Some ''i-1234''),
      (''ansible_ec2_placement_availability_zone'', Some ''eu-west-1a''),
      (''ansible_ec2_security_groups'', Some ''sg-a,sg-b,sg-c''),
      (''ansible_ec2_user_data'', Some ''#!/bin/sh''),
      (''ansible_ec2_public_key'', Some ''ssh-rsa AAAA''),
      (''ansible_ec2_placement_region'', Some ''eu-west-1'')]"

definition small_object :: Ec2Metadata where
  "small_object =
     \<lparr> uri_meta = ''http://host/meta/'',
       uri_user = ec2_userdata_uri,
       uri_ssh = ec2_sshdata_uri,
       data =
         [(''http://host/meta/instance-id'', Some ''i-1234''),
          (''http://host/meta/placement/availability-zone'', Some ''eu-west-1a''),
          (''http://host/meta/security-groups'', Some ''sg-a,sg-b,sg-c'')],
       requests =
         [''http://host/meta/'', ''http://host/meta/instance-id'',
          ''http://host/meta/placement/'', ''http://host/meta/placement/availability-zone'',
          ''http://host/meta/security-groups'', ec2_userdata_uri, ec2_sshdata_uri] \<rparr>"

text \<open>
  The listing names \<^verbatim>\<open>security-groups\<close>, and the request for it fails with an
  error status.
\<close>

definition groups_down :: http where
  "groups_down = (\<lambda>i url.
     if url = ec2_metadata_uri then Body ''security-groups'' else HTTPError)"

text \<open>
  The listing names \<^verbatim>\<open>instance-id\<close>, and the request for it fails with an error
  status.
\<close>

definition leaf_down :: http where
  "leaf_down = (\<lambda>i url.
     if url = ec2_metadata_uri then Body ''instance-id'' else HTTPError)"

text \<open>
  The listing names \<^verbatim>\<open>instance-id\<close>, and the response to the request for it stalls.
\<close>

definition leaf_stalls :: http where
  "leaf_stalls = (\<lambda>i url.
     if url = ec2_metadata_uri then Body ''instance-id'' else Timeout)"

text \<open>Every URL answers with a listing of one sub-directory.\<close>

definition endless :: http where
  "endless = (\<lambda>i url. Body ''a/'')"

text \<open>The listing names the same sub-directory twice; the sub-directory is empty.\<close>

definition twice_listed :: http where
  "twice_listed = (\<lambda>i url.
     if url = ec2_metadata_uri then Body (''d/'' @ [newline] @ ''d/'') else Body [])"

subsection \<open>Notions the statements below use\<close>

text \<open>\<open>child_uri uri field\<close> is the \<^verbatim>\<open>new_uri\<close> the loop computes for a listed name.\<close>

definition child_uri :: "string \<Rightarrow> string \<Rightarrow> string" where
  "child_uri uri field = (if endswith uri ''/'' then uri @ field else uri @ ''/'' @ field)"

text \<open>
  \<open>listed_at h uri field j self\<close>: request number \<open>j\<close> of the log was for
  \<open>uri\<close>, and \<open>field\<close> is a line of the listing the service answered it with.
  \<open>listed h uri field self\<close>: some request of the log was such a request.
  \<open>extends self self'\<close>: the log of \<open>self'\<close> continues the log of \<open>self\<close>.
\<close>

definition listed_at :: "http \<Rightarrow> string \<Rightarrow> string \<Rightarrow> nat \<Rightarrow> Ec2Metadata \<Rightarrow> bool" where
  "listed_at h uri field j self =
     (j < length (requests self) \<and> requests self ! j = uri \<and>
      (\<exists>lst. h j uri = Body lst \<and> field \<in> set (split_on newline lst)))"

definition listed :: "http \<Rightarrow> string \<Rightarrow> string \<Rightarrow> Ec2Metadata \<Rightarrow> bool" where
  "listed h uri field self = (\<exists>j. listed_at h uri field j self)"

definition extends :: "Ec2Metadata \<Rightarrow> Ec2Metadata \<Rightarrow> bool" where
  "extends self self' = (\<exists>ext. requests self' = requests self @ ext)"

text \<open>
  \<open>entry_of h self k v\<close>: the entry \<open>(k, v)\<close> was made for a listed child and holds
  what a request for its key returned. The key is the \<^verbatim>\<open>new_uri\<close> of a name
  \<open>field\<close> listed under a requested \<open>uri\<close>, a later request of the log was for
  the key, and the value is the body when that request succeeded and the child is not named
  \<^verbatim>\<open>security-groups\<close>, the body with commas for newlines when it succeeded and the
  child is named \<^verbatim>\<open>security-groups\<close>, and \<^verbatim>\<open>None\<close> when it failed with one of
  the two exceptions \<^verbatim>\<open>_fetch\<close> catches, which leaves no entry for a child named
  \<^verbatim>\<open>security-groups\<close>. No entry comes from a request that timed out.
  \<open>recorded h self\<close>: every entry of the raw table is such an entry.
\<close>

definition entry_of :: "http \<Rightarrow> Ec2Metadata \<Rightarrow> string \<Rightarrow> string option \<Rightarrow> bool" where
  "entry_of h self k v =
     (\<exists>uri field j i.
        listed_at h uri field j self \<and> k = child_uri uri field \<and>
        j < i \<and> i < length (requests self) \<and> requests self ! i = k \<and>
        (case h i k of
           Body b \<Rightarrow>
             v = Some (if field = ''security-groups''
                       then replace_char newline CHR '','' b else b)
         | HTTPError \<Rightarrow> field \<noteq> ''security-groups'' \<and> v = None
         | URLError \<Rightarrow> field \<noteq> ''security-groups'' \<and> v = None
         | Timeout \<Rightarrow> False))"

definition recorded :: "http \<Rightarrow> Ec2Metadata \<Rightarrow> bool" where
  "recorded h self = (\<forall>(k, v) \<in> set (data self). entry_of h self k v)"

text \<open>
  \<open>nesting_bounded h m\<close>: the service never lists a sub-directory under a URL that
  has \<open>m\<close> slashes or more.
\<close>

definition slashes :: "string \<Rightarrow> nat" where
  "slashes s = length (filter (\<lambda>c. c = CHR ''/'') s)"

definition nesting_bounded :: "http \<Rightarrow> nat \<Rightarrow> bool" where
  "nesting_bounded h m =
     (\<forall>i url b. h i url = Body b \<and> m \<le> slashes url \<longrightarrow>
        (\<forall>f \<in> set (split_on newline b). \<not> endswith f ''/''))"

text \<open>
  \<open>leaf_step\<close> is the second half of the loop body of \<^verbatim>\<open>fetch\<close>, from the
  computation of \<^verbatim>\<open>new_uri\<close> on, as a function of its own: the proofs below take
  the loop apart with it (lemma \<open>fetch_fields_Cons\<close>).
\<close>

definition leaf_step :: "http \<Rightarrow> string \<Rightarrow> string \<Rightarrow> Ec2Metadata \<Rightarrow> error + Ec2Metadata" where
  "leaf_step h uri field self1 =
     (let new_uri = (if endswith uri ''/'' then uri @ field else uri @ ''/'' @ field)
      in if new_uri \<notin> fst ` set (data self1) \<and> \<not> endswith new_uri ''/'' then
           (case fetch_url h new_uri self1 of
              Inl e \<Rightarrow> Inl e
            | Inr (content, self2) \<Rightarrow>
                if field = ''security-groups'' then
                  (case content of
                     None \<Rightarrow> Inl AttributeError
                   | Some c \<Rightarrow>
                       Inr (self2\<lparr>data := AList.update new_uri
                                   (Some (join '','' (split_on newline c))) (data self2)\<rparr>))
                else Inr (self2\<lparr>data := AList.update new_uri content (data self2)\<rparr>))
         else Inr self1)"

subsection \<open>Metadata trees\<close>

text \<open>
  A synthetic metadata tree: a leaf with its content, or a directory with its named
  children. \<open>entry_name\<close> is the line a child has in the listing of its directory (a
  sub-directory carries a trailing slash), \<open>listing\<close> the body of the listing.
  \<open>leaves_children uri cs\<close> are the URIs of the leaves below the directory at \<open>uri\<close>,
  \<open>height_children\<close> the number of directory levels below it, \<open>names_children\<close>
  all the names in it.
\<close>

datatype node = Leaf string | Dir "(string \<times> node) list"

definition entry_name :: "string \<times> node \<Rightarrow> string" where
  "entry_name e = (case e of (name, Leaf c) \<Rightarrow> name | (name, Dir ds) \<Rightarrow> name @ ''/'')"

definition listing :: "(string \<times> node) list \<Rightarrow> string" where
  "listing cs = join [newline] (map entry_name cs)"

fun leaves_node :: "string \<Rightarrow> string \<Rightarrow> node \<Rightarrow> string list"
and leaves_children :: "string \<Rightarrow> (string \<times> node) list \<Rightarrow> string list" where
  "leaves_node uri name (Leaf c) = [uri @ name]"
| "leaves_node uri name (Dir ds) = leaves_children (uri @ name @ ''/'') ds"
| "leaves_children uri [] = []"
| "leaves_children uri ((name, t) # cs) = leaves_node uri name t @ leaves_children uri cs"

fun height_node :: "node \<Rightarrow> nat"
and height_children :: "(string \<times> node) list \<Rightarrow> nat" where
  "height_node (Leaf c) = 0"
| "height_node (Dir ds) = Suc (height_children ds)"
| "height_children [] = 0"
| "height_children ((name, t) # cs) = max (height_node t) (height_children cs)"

fun names_node :: "node \<Rightarrow> string list"
and names_children :: "(string \<times> node) list \<Rightarrow> string list" where
  "names_node (Leaf c) = []"
| "names_node (Dir ds) = names_children ds"
| "names_children [] = []"
| "names_children ((name, t) # cs) = name # names_node t @ names_children cs"

text \<open>
  The service serves the tree: every request for a directory of the tree is answered
  with its listing, every request for a leaf with its content.
\<close>

fun serves_node :: "http \<Rightarrow> string \<Rightarrow> string \<Rightarrow> node \<Rightarrow> bool"
and serves_children :: "http \<Rightarrow> string \<Rightarrow> (string \<times> node) list \<Rightarrow> bool" where
  "serves_node h uri name (Leaf c) = (\<forall>i. h i (uri @ name) = Body c)"
| "serves_node h uri name (Dir ds) =
     ((\<forall>i. h i (uri @ name @ ''/'') = Body (listing ds)) \<and> serves_children h (uri @ name @ ''/'') ds)"
| "serves_children h uri [] = True"
| "serves_children h uri ((name, t) # cs) = (serves_node h uri name t \<and> serves_children h uri cs)"

definition serves :: "http \<Rightarrow> string \<Rightarrow> (string \<times> node) list \<Rightarrow> bool" where
  "serves h uri cs = ((\<forall>i. h i uri = Body (listing cs)) \<and> serves_children h uri cs)"

text \<open>
  A tree under \<open>uri\<close> is well formed when \<open>uri\<close> ends in a slash, no name is empty or
  contains a slash or a newline, and no two leaves have the same URI.
\<close>

definition good_name :: "string \<Rightarrow> bool" where
  "good_name name = (name \<noteq> [] \<and> CHR ''/'' \<notin> set name \<and> newline \<notin> set name)"

definition well_formed :: "string \<Rightarrow> (string \<times> node) list \<Rightarrow> bool" where
  "well_formed uri cs =
     (endswith uri ''/'' \<and> list_all good_name (names_children cs) \<and>
      distinct (leaves_children uri cs))"

text \<open>
  No two children of a directory have the same name, anywhere in the tree. With names
  free of slashes this gives every leaf a URI of its own (lemma
  \<open>distinct_names_well_formed\<close>).
\<close>

fun distinct_names_node :: "node \<Rightarrow> bool"
and distinct_names_children :: "(string \<times> node) list \<Rightarrow> bool" where
  "distinct_names_node (Leaf c) = True"
| "distinct_names_node (Dir ds) = distinct_names_children ds"
| "distinct_names_children [] = True"
| "distinct_names_children ((name, t) # cs) =
     (name \<notin> fst ` set cs \<and> distinct_names_node t \<and> distinct_names_children cs)"

text \<open>
  \<open>crawled self L self'\<close>: the object \<open>self'\<close> is \<open>self\<close> with the URIs \<open>L\<close>
  added to the keys of the raw table, none of them with the value \<^verbatim>\<open>None\<close>.
\<close>

definition crawled :: "Ec2Metadata \<Rightarrow> string list \<Rightarrow> Ec2Metadata \<Rightarrow> bool" where
  "crawled self L self' =
     (fst ` set (data self') = fst ` set (data self) \<union> set L \<and>
      (None \<in> snd ` set (data self') \<longrightarrow> None \<in> snd ` set (data self)) \<and>
      uri_meta self' = uri_meta self \<and> uri_user self' = uri_user self \<and>
      uri_ssh self' = uri_ssh self)"

text \<open>
  \<open>fact_name uri key\<close> is the name a raw key has in the flat table once renamed and
  cleaned of colons and hyphens; \<open>unfiltered uri keys\<close> are the raw keys the exclusion
  pattern of \<open>run\<close> does not remove; \<open>clean_keys d\<close> are the keys of a table that
  contain no colon and no hyphen.
\<close>

definition fact_name :: "string \<Rightarrow> string \<Rightarrow> string" where
  "fact_name uri key = fix_key (prefix_fmt (new_key uri key))"

definition unfiltered :: "string \<Rightarrow> string list \<Rightarrow> string list" where
  "unfiltered uri keys =
     filter (\<lambda>key. \<not> re_search ''public-keys-0'' (prefix_fmt (new_key uri key))) keys"

definition clean_keys :: "table \<Rightarrow> string set" where
  "clean_keys d = {k \<in> fst ` set d. CHR '':'' \<notin> set k \<and> CHR ''-'' \<notin> set k}"

text \<open>The tree that \<open>small_service\<close> serves.\<close>

definition small_tree :: "(string \<times> node) list" where
  "small_tree =
     [(''instance-id'', Leaf ''i-1234''),
      (''placement'', Dir [(''availability-zone'', Leaf ''eu-west-1a'')]),
      (''security-groups'', Leaf (''sg-a'' @ [newline] @ ''sg-b'' @ [newline] @ ''sg-c''))]"

section \<open>Strings\<close>

lemma split_on_not_Nil: "split_on c s \<noteq> []"
  by (induction s) (auto split: list.splits)

lemma join_Cons_Cons: "join sep ((x # y) # ys) = x # join sep (y # ys)"
  by (cases ys) auto

lemma join_split_on: "join [d] (split_on c s) = replace_char c d s"
proof (induction s)
  case Nil
  show ?case by (simp add: replace_char_def)
next
  case (Cons x xs)
  obtain y ys where sp: "split_on c xs = y # ys"
    using split_on_not_Nil [of c xs] by (cases "split_on c xs") auto
  show ?case
  proof (cases "x = c")
    case True
    then show ?thesis
      using Cons.IH sp by (simp add: replace_char_def)
  next
    case False
    then show ?thesis
      using Cons.IH sp by (simp add: replace_char_def join_Cons_Cons)
  qed
qed

lemma endswith_single: "endswith s [c] \<longleftrightarrow> s \<noteq> [] \<and> last s = c"
proof (cases s rule: rev_cases)
  case Nil
  then show ?thesis by (simp add: endswith_def)
next
  case (snoc ys y)
  then show ?thesis by (auto simp: endswith_def)
qed

section \<open>The security-groups leaf\<close>

text \<open>
  Claim C8. When the loop reaches a child whose URI is not yet in the raw table and does
  not end in a slash, and the request for it succeeds, the loop goes on with that URI
  recorded: under the content with every newline replaced by a comma when the child is
  named \<^verbatim>\<open>security-groups\<close>, under the content as it came for any other child.
\<close>

theorem security_groups_joined:
  assumes "new_uri = (if endswith uri ''/'' then uri @ field else uri @ ''/'' @ field)"
    and "new_uri \<notin> fst ` set (data self)"
    and "\<not> endswith new_uri ''/''"
    and "h (length (requests self)) new_uri = Body content"
  shows "fetch_fields n h uri recurse (field # rest) self =
         fetch_fields n h uri recurse rest
           (self\<lparr>requests := requests self @ [new_uri],
                 data := AList.update new_uri
                   (Some (if field = ''security-groups''
                          then replace_char newline CHR '','' content else content))
                   (data self)\<rparr>)"
proof -
  have nf: "\<not> endswith field ''/''"
    using assms(1,3) by (auto simp: endswith_single split: if_splits)
  show ?thesis
    using assms nf by (simp add: fetch_url_def join_split_on Let_def)
qed

theorem security_groups_joined_witness:
  "fetch_fields 0 small_service ''http://host/meta/'' True [''security-groups'']
     (init (Some ''http://host/meta/'') None None) =
   Some (Inr ((init (Some ''http://host/meta/'') None None)
     \<lparr>requests := [''http://host/meta/security-groups''],
      data := [(''http://host/meta/security-groups'', Some ''sg-a,sg-b,sg-c'')]\<rparr>))"
proof -
  have u: "''http://host/meta/security-groups'' =
      (if endswith ''http://host/meta/'' ''/'' then ''http://host/meta/'' @ ''security-groups''
       else ''http://host/meta/'' @ ''/'' @ ''security-groups'')"
    by (simp add: endswith_def)
  have k: "''http://host/meta/security-groups''
      \<notin> fst ` set (data (init (Some ''http://host/meta/'') None None))"
    by (simp add: init_def)
  have e: "\<not> endswith ''http://host/meta/security-groups'' ''/''"
    by (simp add: endswith_def)
  have b: "small_service (length (requests (init (Some ''http://host/meta/'') None None)))
      ''http://host/meta/security-groups'' = Body (''sg-a'' @ [newline] @ ''sg-b'' @ [newline] @ ''sg-c'')"
    by (simp add: small_service_def)
  show ?thesis
    using security_groups_joined [of "''http://host/meta/security-groups''" "''http://host/meta/''"
        "''security-groups''" "init (Some ''http://host/meta/'') None None" small_service
        "''sg-a'' @ [newline] @ ''sg-b'' @ [newline] @ ''sg-c''" 0 True "[]", OF u k e b]
    by (simp add: init_def replace_char_def newline_def)
qed

section \<open>Keys of the renamed table\<close>

lemma keys_delete: "fst ` set (AList.delete k al) = fst ` set al - {k}"
  by (induction al) auto

lemma keys_foldl_delete:
  "fst ` set (foldl (\<lambda>d key. if P key then AList.delete key d else d) d ks)
     = fst ` set d - {k \<in> set ks. P k}"
proof (induction ks arbitrary: d)
  case Nil
  show ?case by simp
next
  case (Cons a ks)
  show ?case by (auto simp: Cons.IH keys_delete)
qed

lemma keys_filter_pattern:
  "fst ` set (filter_pattern d p) = {k \<in> fst ` set d. \<not> re_search p k}"
  unfolding filter_pattern_def by (subst keys_foldl_delete) auto

lemma keys_foldl_filter_pattern:
  "fst ` set (foldl filter_pattern d ps) = {k \<in> fst ` set d. \<forall>p \<in> set ps. \<not> re_search p k}"
proof (induction ps arbitrary: d)
  case Nil
  show ?case by simp
next
  case (Cons p ps)
  show ?case by (auto simp: Cons.IH keys_filter_pattern)
qed

lemma keys_mangle_entry:
  "fst ` set (mangle_entry uri d kv) = insert (prefix_fmt (new_key uri (fst kv))) (fst ` set d)"
  by (cases kv) (simp add: mangle_entry_def dom_update)

lemma keys_foldl_mangle_entry:
  "fst ` set (foldl (mangle_entry uri) d kvs)
     = fst ` set d \<union> (\<lambda>kv. prefix_fmt (new_key uri (fst kv))) ` set kvs"
proof (induction kvs arbitrary: d)
  case Nil
  show ?case by simp
next
  case (Cons kv kvs)
  show ?case
    by (simp add: Cons.IH keys_mangle_entry)
qed

lemma keys_mangle_fields:
  "fst ` set (mangle_fields raw uri pats)
     = {k \<in> (\<lambda>kv. prefix_fmt (new_key uri (fst kv))) ` set raw. \<forall>p \<in> set pats. \<not> re_search p k}"
  by (simp add: mangle_fields_def keys_foldl_filter_pattern keys_foldl_mangle_entry)

text \<open>
  Claim C9. A name in which one of the exclusion patterns is found is not a key of the
  table \<^verbatim>\<open>_mangle_fields\<close> returns, whatever the raw table and however deep the raw
  key it was made from; in particular not the prefixed \<open>new_key\<close> of a raw key.
\<close>

theorem filtered_keys_absent:
  assumes "pattern \<in> set filter_patterns" and "re_search pattern name"
  shows "name \<notin> fst ` set (mangle_fields raw_fields uri filter_patterns)"
  using assms by (auto simp: keys_mangle_fields)

theorem filtered_keys_absent_witness:
  "re_search ''public-keys-0''
     (prefix_fmt (new_key ''http://host/meta/'' ''http://host/meta/public-keys/0/openssh-key'')) \<and>
   prefix_fmt (new_key ''http://host/meta/'' ''http://host/meta/public-keys/0/openssh-key'')
     \<notin> fst ` set (mangle_fields
         [(''http://host/meta/public-keys/0/openssh-key'', Some ''ssh-rsa AAAA''),
          (''http://host/meta/instance-id'', Some ''i-1234'')]
         ''http://host/meta/'' [''public-keys-0'']) \<and>
   mangle_fields
         [(''http://host/meta/public-keys/0/openssh-key'', Some ''ssh-rsa AAAA''),
          (''http://host/meta/instance-id'', Some ''i-1234'')]
         ''http://host/meta/'' [''public-keys-0''] = [(''ansible_ec2_instance-id'', Some ''i-1234'')]"
proof -
  have m: "re_search ''public-keys-0''
     (prefix_fmt (new_key ''http://host/meta/'' ''http://host/meta/public-keys/0/openssh-key''))"
    by code_simp
  have e: "mangle_fields
         [(''http://host/meta/public-keys/0/openssh-key'', Some ''ssh-rsa AAAA''),
          (''http://host/meta/instance-id'', Some ''i-1234'')]
         ''http://host/meta/'' [''public-keys-0''] = [(''ansible_ec2_instance-id'', Some ''i-1234'')]"
    by code_simp
  have "''public-keys-0'' \<in> set [''public-keys-0'']" by simp
  from filtered_keys_absent [OF this m] m e show ?thesis by blast
qed

section \<open>The region\<close>

lemma region_of_find:
  "region_of zone rs = (case List.find (startswith zone) rs of None \<Rightarrow> zone | Some r \<Rightarrow> r)"
  by (induction rs) auto

text \<open>
  Claim C7, as stated, at a table whose zone key holds \<^verbatim>\<open>None\<close> (the request for the
  zone failed): the key is present and no region is added.
\<close>

theorem region_null_zone_counterexample:
  "''ansible_ec2_placement_availability_zone''
      \<in> fst ` set [(''ansible_ec2_placement_availability_zone'', None :: string option)] \<and>
   map_of (add_ec2_region [(''ansible_ec2_placement_availability_zone'', None)])
      ''ansible_ec2_placement_region'' = None"
  by code_simp

text \<open>
  Claim C7, amended. When the zone key is absent or holds \<^verbatim>\<open>None\<close> the table is
  returned as it is. When it holds a string, the region key is set to the first known
  region the zone starts with, in the order of \<open>AWS_REGIONS\<close>, and to the zone itself
  when there is none; nothing else changes. Zone \<^verbatim>\<open>us-east-1a\<close> gives region
  \<^verbatim>\<open>us-east-1\<close>, zone \<^verbatim>\<open>xx-unknown-9z\<close> gives region \<^verbatim>\<open>xx-unknown-9z\<close>.
\<close>

theorem add_ec2_region_cases:
  "add_ec2_region d =
     (case map_of d ''ansible_ec2_placement_availability_zone'' of
        None \<Rightarrow> d
      | Some None \<Rightarrow> d
      | Some (Some zone) \<Rightarrow>
          AList.update ''ansible_ec2_placement_region''
            (Some (case List.find (startswith zone) AWS_REGIONS of
                     None \<Rightarrow> zone
                   | Some r \<Rightarrow> r)) d)
   \<and> add_ec2_region [(''ansible_ec2_placement_availability_zone'', Some ''us-east-1a'')]
       = [(''ansible_ec2_placement_availability_zone'', Some ''us-east-1a''),
          (''ansible_ec2_placement_region'', Some ''us-east-1'')]
   \<and> add_ec2_region [(''ansible_ec2_placement_availability_zone'', Some ''xx-unknown-9z'')]
       = [(''ansible_ec2_placement_availability_zone'', Some ''xx-unknown-9z''),
          (''ansible_ec2_placement_region'', Some ''xx-unknown-9z'')]"
proof -
  have a: "add_ec2_region [(''ansible_ec2_placement_availability_zone'', Some ''us-east-1a'')]
       = [(''ansible_ec2_placement_availability_zone'', Some ''us-east-1a''),
          (''ansible_ec2_placement_region'', Some ''us-east-1'')]"
    by code_simp
  have b: "add_ec2_region [(''ansible_ec2_placement_availability_zone'', Some ''xx-unknown-9z'')]
       = [(''ansible_ec2_placement_availability_zone'', Some ''xx-unknown-9z''),
          (''ansible_ec2_placement_region'', Some ''xx-unknown-9z'')]"
    by code_simp
  have c: "add_ec2_region d =
     (case map_of d ''ansible_ec2_placement_availability_zone'' of
        None \<Rightarrow> d
      | Some None \<Rightarrow> d
      | Some (Some zone) \<Rightarrow>
          AList.update ''ansible_ec2_placement_region''
            (Some (case List.find (startswith zone) AWS_REGIONS of
                     None \<Rightarrow> zone
                   | Some r \<Rightarrow> r)) d)"
    by (simp add: add_ec2_region_def dict_get_def region_of_find split: option.splits)
  show ?thesis using a b c by blast
qed

section \<open>Keys of the table \<open>run\<close> returns\<close>

lemma keys_fix_entry:
  "fst ` set (fix_entry d kv) =
     fst ` set d \<union> (if CHR '':'' \<in> set (fst kv) \<or> CHR ''-'' \<in> set (fst kv) then {fix_key (fst kv)} else {})"
  by (cases kv) (simp add: fix_entry_def dom_update)

lemma keys_foldl_fix_entry:
  "fst ` set (foldl fix_entry d kvs) =
     fst ` set d \<union> fix_key ` {k \<in> fst ` set kvs. CHR '':'' \<in> set k \<or> CHR ''-'' \<in> set k}"
proof (induction kvs arbitrary: d)
  case Nil
  show ?case by simp
next
  case (Cons kv kvs)
  show ?case by (auto simp: Cons.IH keys_fix_entry)
qed

lemma keys_fix_invalid_varnames:
  "fst ` set (fix_invalid_varnames d) =
     fst ` set d \<union> fix_key ` {k \<in> fst ` set d. CHR '':'' \<in> set k \<or> CHR ''-'' \<in> set k}"
  by (simp add: fix_invalid_varnames_def keys_foldl_fix_entry)

lemma keys_add_ec2_region:
  "fst ` set (add_ec2_region d) =
     fst ` set d \<union> (case dict_get d ''ansible_ec2_placement_availability_zone'' of
                       None \<Rightarrow> {} | Some z \<Rightarrow> {''ansible_ec2_placement_region''})"
  by (simp add: add_ec2_region_def dom_update split: option.splits)

lemma startswith_fix_key:
  assumes "startswith k ''ansible_ec2_''"
  shows "startswith (fix_key k) ''ansible_ec2_''"
proof -
  have t: "take (length ''ansible_ec2_'') k = ''ansible_ec2_''"
    using assms unfolding startswith_def .
  have "take (length ''ansible_ec2_'') (fix_key k) = fix_key (take (length ''ansible_ec2_'') k)"
    by (simp only: fix_key_def replace_char_def take_map)
  also have "\<dots> = fix_key ''ansible_ec2_''"
    by (simp only: t)
  also have "\<dots> = ''ansible_ec2_''"
    by (simp add: fix_key_def replace_char_def)
  finally show ?thesis unfolding startswith_def .
qed

lemma startswith_prefix_fmt: "startswith (prefix_fmt name) ''ansible_ec2_''"
  by (simp add: startswith_def prefix_fmt_def)

lemma run_Some_Inr:
  assumes "run fuel h self = Some (Inr (d, self'))"
  shows "\<exists>self1 u p.
           fetch fuel h (uri_meta self) True self = Some (Inr self1) \<and>
           d = add_ec2_region (fix_invalid_varnames
                 (AList.update (prefix_fmt ''public-key'') p
                   (AList.update (prefix_fmt ''user-data'') u
                     (mangle_fields (data self1) (uri_meta self1) [''public-keys-0'']))))"
  using assms
  by (auto simp: run_def Let_def fetch_url_def split: option.splits sum.splits prod.splits)

lemma run_small_service:
  "run (Suc (Suc 0)) small_service (init (Some ''http://host/meta/'') None None)
     = Some (Inr (small_flat, small_object))"
  by code_simp

text \<open>
  Claim C10. Every key of the table \<open>run\<close> returns starts with \<^verbatim>\<open>ansible_ec2_\<close>.
\<close>

theorem run_keys_prefixed:
  assumes "run fuel h self = Some (Inr (d, self'))" and "k \<in> fst ` set d"
  shows "startswith k ''ansible_ec2_''"
proof -
  from assms(1) obtain self1 :: Ec2Metadata and u p where
    d: "d = add_ec2_region (fix_invalid_varnames
           (AList.update (prefix_fmt ''public-key'') p
             (AList.update (prefix_fmt ''user-data'') u
               (mangle_fields (data self1) (uri_meta self1) [''public-keys-0'']))))"
    using run_Some_Inr by blast
  define d2 where "d2 = AList.update (prefix_fmt ''public-key'') p
             (AList.update (prefix_fmt ''user-data'') u
               (mangle_fields (data self1) (uri_meta self1) [''public-keys-0'']))"
  have k2: "\<forall>k \<in> fst ` set d2. startswith k ''ansible_ec2_''"
    by (auto simp: d2_def dom_update keys_mangle_fields startswith_prefix_fmt)
  then have k3: "\<forall>k \<in> fst ` set (fix_invalid_varnames d2). startswith k ''ansible_ec2_''"
    by (auto simp: keys_fix_invalid_varnames intro: startswith_fix_key)
  have "startswith ''ansible_ec2_placement_region'' ''ansible_ec2_''"
    by (simp add: startswith_def)
  with k3 have "\<forall>k \<in> fst ` set (add_ec2_region (fix_invalid_varnames d2)). startswith k ''ansible_ec2_''"
    by (auto simp: keys_add_ec2_region split: option.splits)
  with assms(2) show ?thesis unfolding d d2_def by blast
qed

theorem run_keys_prefixed_witness:
  "run (Suc (Suc 0)) small_service (init (Some ''http://host/meta/'') None None)
     = Some (Inr (small_flat, small_object)) \<and>
   ''ansible_ec2_placement_region'' \<in> fst ` set small_flat \<and>
   startswith ''ansible_ec2_placement_region'' ''ansible_ec2_''"
proof -
  have k: "''ansible_ec2_placement_region'' \<in> fst ` set small_flat"
    by (simp add: small_flat_def)
  from run_keys_prefixed [OF run_small_service k] run_small_service k
  show ?thesis by blast
qed

text \<open>
  Claim C1, at every input. \<^verbatim>\<open>fix_invalid_varnames\<close> stores the value under the new
  key and leaves the old key in place, so the key \<^verbatim>\<open>ansible_ec2_user-data\<close>, which
  \<open>run\<close> always sets, is a key of every table \<open>run\<close> returns, hyphen included.
\<close>

theorem run_keeps_hyphenated_key:
  assumes "run fuel h self = Some (Inr (d, self'))"
  shows "''ansible_ec2_user-data'' \<in> fst ` set d \<and> CHR ''-'' \<in> set ''ansible_ec2_user-data''"
proof -
  from assms(1) obtain self1 :: Ec2Metadata and u p where
    d: "d = add_ec2_region (fix_invalid_varnames
           (AList.update (prefix_fmt ''public-key'') p
             (AList.update (prefix_fmt ''user-data'') u
               (mangle_fields (data self1) (uri_meta self1) [''public-keys-0'']))))"
    using run_Some_Inr by blast
  have "prefix_fmt ''user-data'' \<in> fst ` set d"
    unfolding d by (simp add: keys_add_ec2_region keys_fix_invalid_varnames dom_update)
  then show ?thesis by (simp add: prefix_fmt_def)
qed

theorem run_keeps_hyphenated_key_witness:
  "run (Suc (Suc 0)) small_service (init (Some ''http://host/meta/'') None None)
     = Some (Inr (small_flat, small_object)) \<and>
   ''ansible_ec2_user-data'' \<in> fst ` set small_flat"
  using run_keeps_hyphenated_key [OF run_small_service] run_small_service by blast

text \<open>
  Claim C2, at a service whose listing names \<^verbatim>\<open>security-groups\<close> and whose answer
  to the request for it is an HTTP error: \<^verbatim>\<open>content\<close> is \<^verbatim>\<open>None\<close>,
  \<^verbatim>\<open>content.split\<close> raises, and nothing between there and the caller of \<open>run\<close>
  catches it.
\<close>

theorem run_groups_down:
  "run (Suc 0) groups_down (init None None None) = Some (Inl AttributeError)"
  by code_simp

section \<open>The loop, one field at a time\<close>

lemma leaf_part:
  "(let new_uri = (if endswith uri ''/'' then uri @ field else uri @ ''/'' @ field)
    in if new_uri \<notin> fst ` set (data self1) \<and> \<not> endswith new_uri ''/'' then
         (case fetch_url h new_uri self1 of
            Inl e \<Rightarrow> Some (Inl e)
          | Inr (content, self2) \<Rightarrow>
              if field = ''security-groups'' then
                (case content of
                   None \<Rightarrow> Some (Inl AttributeError)
                 | Some c \<Rightarrow>
                     K (self2\<lparr>data := AList.update new_uri
                                 (Some (join '','' (split_on newline c))) (data self2)\<rparr>))
              else K (self2\<lparr>data := AList.update new_uri content (data self2)\<rparr>))
       else K self1)
   = (case leaf_step h uri field self1 of Inl e \<Rightarrow> Some (Inl e) | Inr self2 \<Rightarrow> K self2)"
  by (simp add: leaf_step_def Let_def split: sum.splits prod.splits option.splits)

lemma fetch_fields_Cons:
  "fetch_fields n h uri recurse (field # rest) self =
     (case (if endswith field ''/'' \<and> recurse then fetch n h (uri @ field) True self
            else Some (Inr self)) of
        None \<Rightarrow> None
      | Some (Inl e) \<Rightarrow> Some (Inl e)
      | Some (Inr self1) \<Rightarrow>
          (case leaf_step h uri field self1 of
             Inl e \<Rightarrow> Some (Inl e)
           | Inr self2 \<Rightarrow> fetch_fields n h uri recurse rest self2))"
  by (simp only: fetch_fields.simps leaf_part [where K = "fetch_fields n h uri recurse rest"])

lemma fetch_Suc:
  "fetch (Suc n) h uri recurse self =
     (case fetch_url h uri self of
        Inl e \<Rightarrow> Some (Inl e)
      | Inr (None, self1) \<Rightarrow> Some (Inr self1)
      | Inr (Some raw_subfields, self1) \<Rightarrow>
          if raw_subfields = [] then Some (Inr self1)
          else fetch_fields n h uri recurse (split_on newline raw_subfields) self1)"
  by simp

lemma fetch_url_Body:
  "h (length (requests self)) url = Body b \<Longrightarrow>
     fetch_url h url self = Inr (Some b, self\<lparr>requests := requests self @ [url]\<rparr>)"
  by (simp add: fetch_url_def)

lemma fetch_url_caught:
  "h (length (requests self)) url = HTTPError \<or> h (length (requests self)) url = URLError \<Longrightarrow>
     fetch_url h url self = Inr (None, self\<lparr>requests := requests self @ [url]\<rparr>)"
  by (auto simp: fetch_url_def)

lemma fetch_url_Timeout:
  "h (length (requests self)) url = Timeout \<Longrightarrow> fetch_url h url self = Inl SocketTimeout"
  by (simp add: fetch_url_def)

lemma leaf_step_eq:
  "leaf_step h uri field self =
     (if child_uri uri field \<in> fst ` set (data self) \<or> endswith (child_uri uri field) ''/''
      then Inr self
      else (case h (length (requests self)) (child_uri uri field) of
              Body b \<Rightarrow>
                Inr (self\<lparr>requests := requests self @ [child_uri uri field],
                          data := AList.update (child_uri uri field)
                            (Some (if field = ''security-groups''
                                   then replace_char newline CHR '','' b else b)) (data self)\<rparr>)
            | HTTPError \<Rightarrow>
                if field = ''security-groups'' then Inl AttributeError
                else Inr (self\<lparr>requests := requests self @ [child_uri uri field],
                               data := AList.update (child_uri uri field) None (data self)\<rparr>)
            | URLError \<Rightarrow>
                if field = ''security-groups'' then Inl AttributeError
                else Inr (self\<lparr>requests := requests self @ [child_uri uri field],
                               data := AList.update (child_uri uri field) None (data self)\<rparr>)
            | Timeout \<Rightarrow> Inl SocketTimeout))"
  unfolding leaf_step_def child_uri_def [symmetric] Let_def
  by (simp add: fetch_url_def join_split_on split: response.splits)

section \<open>What the raw table holds\<close>

lemma set_update_subset: "set (AList.update k v al) \<subseteq> insert (k, v) (set al)"
  by (induction al) auto

lemma extends_refl: "extends self self"
  by (simp add: extends_def)

lemma extends_trans: "extends a b \<Longrightarrow> extends b c \<Longrightarrow> extends a c"
  by (auto simp: extends_def)

lemma extends_append: "extends self (self\<lparr>requests := requests self @ ext, data := d\<rparr>)"
  by (simp add: extends_def)

lemma listed_at_extends:
  assumes "listed_at h uri field j self" and "extends self self'"
  shows "listed_at h uri field j self'"
proof -
  from assms(2) obtain ext where e: "requests self' = requests self @ ext"
    unfolding extends_def by blast
  from assms(1) have "j < length (requests self')" "requests self' ! j = uri"
    by (simp_all add: listed_at_def e nth_append)
  with assms(1) show ?thesis unfolding listed_at_def by blast
qed

lemma listed_extends:
  assumes "listed h uri field self" and "extends self self'"
  shows "listed h uri field self'"
  using assms listed_at_extends unfolding listed_def by blast

lemma entry_of_extends:
  assumes "entry_of h self k v" and "extends self self'"
  shows "entry_of h self' k v"
proof -
  from assms(1) obtain uri field j i where
    r: "listed_at h uri field j self" "k = child_uri uri field" "j < i"
      "i < length (requests self)" "requests self ! i = k"
      "(case h i k of
           Body b \<Rightarrow>
             v = Some (if field = ''security-groups''
                       then replace_char newline CHR '','' b else b)
         | HTTPError \<Rightarrow> field \<noteq> ''security-groups'' \<and> v = None
         | URLError \<Rightarrow> field \<noteq> ''security-groups'' \<and> v = None
         | Timeout \<Rightarrow> False)"
    unfolding entry_of_def by blast
  from assms(2) obtain ext where e: "requests self' = requests self @ ext"
    unfolding extends_def by blast
  from r(4,5) have "i < length (requests self')" "requests self' ! i = k"
    by (simp_all add: e nth_append)
  with listed_at_extends [OF r(1) assms(2)] r(2,3,6) show ?thesis
    unfolding entry_of_def by blast
qed

lemma recorded_extends:
  assumes "recorded h self" and "extends self self'" and "data self' = data self"
  shows "recorded h self'"
  using assms entry_of_extends [of h self _ _ self'] unfolding recorded_def by auto

lemma recorded_store:
  assumes "recorded h self" and "listed h uri field self"
    and "case h (length (requests self)) (child_uri uri field) of
             Body b \<Rightarrow>
               v = Some (if field = ''security-groups''
                         then replace_char newline CHR '','' b else b)
           | HTTPError \<Rightarrow> field \<noteq> ''security-groups'' \<and> v = None
           | URLError \<Rightarrow> field \<noteq> ''security-groups'' \<and> v = None
           | Timeout \<Rightarrow> False"
  shows "recorded h (self\<lparr>requests := requests self @ [child_uri uri field],
                         data := AList.update (child_uri uri field) v (data self)\<rparr>)"
proof -
  let ?s2 = "self\<lparr>requests := requests self @ [child_uri uri field],
                  data := AList.update (child_uri uri field) v (data self)\<rparr>"
  have e2: "extends self ?s2" by (simp add: extends_def)
  have new: "entry_of h ?s2 (child_uri uri field) v"
  proof -
    from assms(2) obtain j where j: "listed_at h uri field j self"
      unfolding listed_def by blast
    then have "j < length (requests self)" by (simp add: listed_at_def)
    moreover have "listed_at h uri field j ?s2" using j e2 by (rule listed_at_extends)
    moreover have "length (requests self) < length (requests ?s2)" by simp
    moreover have "requests ?s2 ! length (requests self) = child_uri uri field" by simp
    ultimately show ?thesis using assms(3) unfolding entry_of_def by blast
  qed
  have "entry_of h ?s2 k w" if "(k, w) \<in> set (data ?s2)" for k w
  proof -
    from that consider "(k, w) = (child_uri uri field, v)" | "(k, w) \<in> set (data self)"
      using set_update_subset [of "child_uri uri field" v "data self"] by auto
    then show ?thesis
    proof cases
      case 1
      with new show ?thesis by simp
    next
      case 2
      with assms(1) have "entry_of h self k w" unfolding recorded_def by auto
      then show ?thesis using e2 by (rule entry_of_extends)
    qed
  qed
  then show ?thesis unfolding recorded_def by auto
qed

lemma recorded_leaf_step:
  assumes "recorded h self" and "listed h uri field self"
    and "leaf_step h uri field self = Inr self'"
  shows "recorded h self' \<and> extends self self'"
proof (cases "child_uri uri field \<in> fst ` set (data self) \<or> endswith (child_uri uri field) ''/''")
  case True
  with assms show ?thesis by (simp add: leaf_step_eq extends_refl)
next
  case False
  show ?thesis
  proof (cases "h (length (requests self)) (child_uri uri field)")
    case (Body b)
    let ?v = "Some (if field = ''security-groups'' then replace_char newline CHR '','' b else b)"
    have "recorded h (self\<lparr>requests := requests self @ [child_uri uri field],
              data := AList.update (child_uri uri field) ?v (data self)\<rparr>)"
      by (rule recorded_store [OF assms(1,2)]) (simp add: Body)
    with assms(3) False Body show ?thesis
      by (auto simp: leaf_step_eq extends_append)
  next
    case HTTPError
    with assms(3) False have f: "field \<noteq> ''security-groups''"
      by (auto simp: leaf_step_eq split: if_splits)
    have "recorded h (self\<lparr>requests := requests self @ [child_uri uri field],
              data := AList.update (child_uri uri field) None (data self)\<rparr>)"
      by (rule recorded_store [OF assms(1,2)]) (simp add: HTTPError f)
    with assms(3) False HTTPError f show ?thesis
      by (auto simp: leaf_step_eq extends_append)
  next
    case URLError
    with assms(3) False have f: "field \<noteq> ''security-groups''"
      by (auto simp: leaf_step_eq split: if_splits)
    have "recorded h (self\<lparr>requests := requests self @ [child_uri uri field],
              data := AList.update (child_uri uri field) None (data self)\<rparr>)"
      by (rule recorded_store [OF assms(1,2)]) (simp add: URLError f)
    with assms(3) False URLError f show ?thesis
      by (auto simp: leaf_step_eq extends_append)
  next
    case Timeout
    with assms(3) False show ?thesis by (simp add: leaf_step_eq)
  qed
qed

lemma recorded_fetch_fields:
  assumes IH: "\<And>uri recurse self self'. recorded h self \<Longrightarrow>
      fetch n h uri recurse self = Some (Inr self') \<Longrightarrow> recorded h self' \<and> extends self self'"
  shows "recorded h self \<Longrightarrow> \<forall>f \<in> set fs. listed h uri f self \<Longrightarrow>
      fetch_fields n h uri recurse fs self = Some (Inr self')
      \<Longrightarrow> recorded h self' \<and> extends self self'"
proof (induction fs arbitrary: self)
  case Nil
  then show ?case by (simp add: extends_refl)
next
  case (Cons field rest)
  from Cons.prems(3) obtain self1 self2 :: Ec2Metadata where
    d: "(if endswith field ''/'' \<and> recurse then fetch n h (uri @ field) True self
         else Some (Inr self)) = Some (Inr self1)"
    and l: "leaf_step h uri field self1 = Inr self2"
    and r: "fetch_fields n h uri recurse rest self2 = Some (Inr self')"
    by (auto simp: fetch_fields_Cons simp del: fetch_fields.simps split: option.splits sum.splits)
  from d Cons.prems(1) have 1: "recorded h self1 \<and> extends self self1"
    by (auto dest: IH simp: extends_refl split: if_splits)
  from Cons.prems(2) 1 have "listed h uri field self1"
    by (auto intro: listed_extends)
  with 1 l have 2: "recorded h self2 \<and> extends self1 self2"
    by (intro recorded_leaf_step) simp_all
  from 1 2 have e: "extends self self2" by (blast intro: extends_trans)
  with Cons.prems(2) have "\<forall>f \<in> set rest. listed h uri f self2"
    by (auto intro: listed_extends)
  with 2 r have "recorded h self' \<and> extends self2 self'"
    by (intro Cons.IH) simp_all
  with e show ?case by (blast intro: extends_trans)
qed

lemma recorded_fetch:
  "recorded h self \<Longrightarrow> fetch n h uri recurse self = Some (Inr self')
     \<Longrightarrow> recorded h self' \<and> extends self self'"
proof (induction n arbitrary: uri recurse self self')
  case 0
  then show ?case by simp
next
  case (Suc n)
  let ?s1 = "self\<lparr>requests := requests self @ [uri]\<rparr>"
  have e1: "extends self ?s1" by (simp add: extends_def)
  have r1: "recorded h ?s1" using Suc.prems(1) e1 by (rule recorded_extends) simp
  show ?case
  proof (cases "h (length (requests self)) uri")
    case (Body raw)
    show ?thesis
    proof (cases "raw = []")
      case True
      with Body Suc.prems(2) have "self' = ?s1"
        by (simp add: fetch_Suc fetch_url_Body del: fetch.simps)
      with r1 e1 show ?thesis by simp
    next
      case False
      with Body Suc.prems(2) have 2:
        "fetch_fields n h uri recurse (split_on newline raw) ?s1 = Some (Inr self')"
        by (simp add: fetch_Suc fetch_url_Body del: fetch.simps)
      have l: "\<forall>f \<in> set (split_on newline raw). listed h uri f ?s1"
        unfolding listed_def listed_at_def using Body
        by (intro ballI exI [of _ "length (requests self)"]) simp
      have "recorded h self' \<and> extends ?s1 self'"
      proof (rule recorded_fetch_fields)
        show "recorded h s' \<and> extends s s'"
          if "recorded h s" and "fetch n h u r s = Some (Inr s')" for u r s s'
          using that by (rule Suc.IH)
        show "recorded h ?s1" by (fact r1)
        show "\<forall>f \<in> set (split_on newline raw). listed h uri f ?s1" by (fact l)
        show "fetch_fields n h uri recurse (split_on newline raw) ?s1 = Some (Inr self')"
          by (fact 2)
      qed
      with e1 show ?thesis by (blast intro: extends_trans)
    qed
  next
    case HTTPError
    with Suc.prems(2) have "self' = ?s1"
      by (simp add: fetch_Suc fetch_url_caught del: fetch.simps)
    with r1 e1 show ?thesis by simp
  next
    case URLError
    with Suc.prems(2) have "self' = ?s1"
      by (simp add: fetch_Suc fetch_url_caught del: fetch.simps)
    with r1 e1 show ?thesis by simp
  next
    case Timeout
    with Suc.prems(2) show ?thesis
      by (simp add: fetch_Suc fetch_url_Timeout del: fetch.simps)
  qed
qed

text \<open>
  Claim C3, as stated, at a service whose listing names \<^verbatim>\<open>instance-id\<close> and whose
  answer to the request for it is an HTTP error: the raw table has an entry for the URI,
  and the entry holds \<^verbatim>\<open>None\<close>.
\<close>

theorem fetch_leaf_down_counterexample:
  "fetch (Suc 0) leaf_down ec2_metadata_uri True (init None None None) =
     Some (Inr ((init None None None)
       \<lparr>data := [(''http://169.254.169.254/latest/meta-data/instance-id'', None)],
        requests := [ec2_metadata_uri, ''http://169.254.169.254/latest/meta-data/instance-id'']\<rparr>))"
  by code_simp

lemma fetch_fields_failed_leaf:
  assumes "child_uri uri field \<notin> fst ` set (data self)"
    and "\<not> endswith (child_uri uri field) ''/''"
    and "field \<noteq> ''security-groups''"
    and "h (length (requests self)) (child_uri uri field) = HTTPError \<or>
         h (length (requests self)) (child_uri uri field) = URLError"
  shows "fetch_fields n h uri recurse (field # rest) self =
         fetch_fields n h uri recurse rest
           (self\<lparr>requests := requests self @ [child_uri uri field],
                 data := AList.update (child_uri uri field) None (data self)\<rparr>)"
proof -
  have nf: "\<not> endswith field ''/''"
    using assms(2) by (auto simp: child_uri_def endswith_single split: if_splits)
  have "leaf_step h uri field self =
      Inr (self\<lparr>requests := requests self @ [child_uri uri field],
                 data := AList.update (child_uri uri field) None (data self)\<rparr>)"
    using assms by (auto simp: leaf_step_eq)
  with nf show ?thesis
    by (simp add: fetch_fields_Cons del: fetch_fields.simps)
qed

lemma fetch_fields_stalled_leaf:
  assumes "child_uri uri field \<notin> fst ` set (data self)"
    and "\<not> endswith (child_uri uri field) ''/''"
    and "h (length (requests self)) (child_uri uri field) = Timeout"
  shows "fetch_fields n h uri recurse (field # rest) self = Some (Inl SocketTimeout)"
proof -
  have nf: "\<not> endswith field ''/''"
    using assms(2) by (auto simp: child_uri_def endswith_single split: if_splits)
  have "leaf_step h uri field self = Inl SocketTimeout"
    using assms by (simp add: leaf_step_eq)
  with nf show ?thesis
    by (simp add: fetch_fields_Cons del: fetch_fields.simps)
qed

text \<open>
  The invariant tells the children apart by name: when every listed child with the key
  \<open>k\<close> is named \<^verbatim>\<open>security-groups\<close>, a recorded entry for \<open>k\<close> holds the
  body with commas for newlines. In the log of \<open>small_object\<close> the only listed child
  with the URI \<^verbatim>\<open>http://host/meta/security-groups\<close> is the one named
  \<^verbatim>\<open>security-groups\<close>, so a table that holds the body of that request with its
  newlines is not \<open>recorded\<close>.
\<close>

lemma split_on_small_service:
  "split_on newline (''instance-id'' @ [newline] @ ''placement/'' @ [newline] @ ''security-groups'')
     = [''instance-id'', ''placement/'', ''security-groups'']"
  "split_on newline ''i-1234'' = [''i-1234'']"
  "split_on newline ''availability-zone'' = [''availability-zone'']"
  "split_on newline ''eu-west-1a'' = [''eu-west-1a'']"
  "split_on newline (''sg-a'' @ [newline] @ ''sg-b'' @ [newline] @ ''sg-c'') = [''sg-a'', ''sg-b'', ''sg-c'']"
  "split_on newline ''#!/bin/sh'' = [''#!/bin/sh'']"
  "split_on newline ''ssh-rsa AAAA'' = [''ssh-rsa AAAA'']"
  by code_simp+

lemma recorded_named_security_groups:
  assumes "recorded h self" and "(k, v) \<in> set (data self)"
    and "\<forall>i. h i k = Body b"
    and "\<forall>uri field. listed h uri field self \<and> child_uri uri field = k \<longrightarrow> field = ''security-groups''"
  shows "v = Some (replace_char newline CHR '','' b)"
proof -
  from assms(1,2) have "entry_of h self k v" unfolding recorded_def by auto
  then obtain uri field j i where
    r: "listed_at h uri field j self" "k = child_uri uri field"
      "(case h i k of
           Body b \<Rightarrow>
             v = Some (if field = ''security-groups''
                       then replace_char newline CHR '','' b else b)
         | HTTPError \<Rightarrow> field \<noteq> ''security-groups'' \<and> v = None
         | URLError \<Rightarrow> field \<noteq> ''security-groups'' \<and> v = None
         | Timeout \<Rightarrow> False)"
    unfolding entry_of_def by blast
  from r(1,2) assms(4) have "field = ''security-groups''" unfolding listed_def by blast
  with r(3) assms(3) show ?thesis by simp
qed

lemma listed_small_object:
  assumes "listed small_service uri field small_object"
  shows "(uri, field) \<in> {(''http://host/meta/'', ''instance-id''),
     (''http://host/meta/'', ''placement/''), (''http://host/meta/'', ''security-groups''),
     (''http://host/meta/instance-id'', ''i-1234''),
     (''http://host/meta/placement/'', ''availability-zone''),
     (''http://host/meta/placement/availability-zone'', ''eu-west-1a''),
     (''http://host/meta/security-groups'', ''sg-a''),
     (''http://host/meta/security-groups'', ''sg-b''),
     (''http://host/meta/security-groups'', ''sg-c''),
     (ec2_userdata_uri, ''#!/bin/sh''), (ec2_sshdata_uri, ''ssh-rsa AAAA'')}"
proof -
  from assms obtain j lst where j0: "j < length (requests small_object)"
    and j: "requests small_object ! j = uri"
    "small_service j uri = Body lst" "field \<in> set (split_on newline lst)"
    unfolding listed_def listed_at_def by blast
  from j0 have "j < 7" by (simp add: small_object_def)
  then consider "j = 0" | "j = 1" | "j = 2" | "j = 3" | "j = 4" | "j = 5" | "j = 6"
    by arith
  then show ?thesis
  proof cases
    case 1
    with j(1) have u: "uri = ''http://host/meta/''" by (simp add: small_object_def)
    with j(2) have "lst = ''instance-id'' @ [newline] @ ''placement/'' @ [newline] @ ''security-groups''"
      by (simp add: small_service_def)
    with j(3) have "field \<in> set (split_on newline lst)" by simp
    then show ?thesis unfolding \<open>lst = _\<close> split_on_small_service using u by auto
  next
    case 2
    with j(1) have u: "uri = ''http://host/meta/instance-id''" by (simp add: small_object_def)
    with j(2) have "lst = ''i-1234''"
      by (simp add: small_service_def)
    with j(3) have "field \<in> set (split_on newline lst)" by simp
    then show ?thesis unfolding \<open>lst = _\<close> split_on_small_service using u by auto
  next
    case 3
    with j(1) have u: "uri = ''http://host/meta/placement/''" by (simp add: small_object_def)
    with j(2) have "lst = ''availability-zone''"
      by (simp add: small_service_def)
    with j(3) have "field \<in> set (split_on newline lst)" by simp
    then show ?thesis unfolding \<open>lst = _\<close> split_on_small_service using u by auto
  next
    case 4
    with j(1) have u: "uri = ''http://host/meta/placement/availability-zone''" by (simp add: small_object_def)
    with j(2) have "lst = ''eu-west-1a''"
      by (simp add: small_service_def)
    with j(3) have "field \<in> set (split_on newline lst)" by simp
    then show ?thesis unfolding \<open>lst = _\<close> split_on_small_service using u by auto
  next
    case 5
    with j(1) have u: "uri = ''http://host/meta/security-groups''" by (simp add: small_object_def)
    with j(2) have "lst = ''sg-a'' @ [newline] @ ''sg-b'' @ [newline] @ ''sg-c''"
      by (simp add: small_service_def)
    with j(3) have "field \<in> set (split_on newline lst)" by simp
    then show ?thesis unfolding \<open>lst = _\<close> split_on_small_service using u by auto
  next
    case 6
    with j(1) have u: "uri = ec2_userdata_uri" by (simp add: small_object_def)
    have "small_service j ec2_userdata_uri = Body ''#!/bin/sh''"
      by (simp add: small_service_def ec2_userdata_uri_def)
    with j(2) u have "lst = ''#!/bin/sh''" by simp
    with j(3) have "field \<in> set (split_on newline lst)" by simp
    then show ?thesis unfolding \<open>lst = _\<close> split_on_small_service using u by auto
  next
    case 7
    with j(1) have u: "uri = ec2_sshdata_uri" by (simp add: small_object_def)
    have "small_service j ec2_sshdata_uri = Body ''ssh-rsa AAAA''"
      by (simp add: small_service_def ec2_sshdata_uri_def ec2_userdata_uri_def)
    with j(2) u have "lst = ''ssh-rsa AAAA''" by simp
    with j(3) have "field \<in> set (split_on newline lst)" by simp
    then show ?thesis unfolding \<open>lst = _\<close> split_on_small_service using u by auto
  qed
qed

lemma raw_groups_not_recorded:
  "\<not> recorded small_service
      (small_object\<lparr>data := [(''http://host/meta/security-groups'',
          Some (''sg-a'' @ [newline] @ ''sg-b'' @ [newline] @ ''sg-c''))]\<rparr>)"
proof
  let ?k = "''http://host/meta/security-groups''"
  let ?raw = "''sg-a'' @ [newline] @ ''sg-b'' @ [newline] @ ''sg-c''"
  let ?s = "small_object\<lparr>data := [(?k, Some ?raw)]\<rparr>"
  assume r: "recorded small_service ?s"
  have b: "\<forall>i. small_service i ?k = Body ?raw" by (simp add: small_service_def)
  have l: "listed small_service uri field ?s = listed small_service uri field small_object"
    for uri field by (simp add: listed_def listed_at_def)
  have c: "child_uri ''http://host/meta/'' ''instance-id'' \<noteq> ?k"
    "child_uri ''http://host/meta/'' ''placement/'' \<noteq> ?k"
    "child_uri ''http://host/meta/instance-id'' ''i-1234'' \<noteq> ?k"
    "child_uri ''http://host/meta/placement/'' ''availability-zone'' \<noteq> ?k"
    "child_uri ''http://host/meta/placement/availability-zone'' ''eu-west-1a'' \<noteq> ?k"
    "child_uri ''http://host/meta/security-groups'' ''sg-a'' \<noteq> ?k"
    "child_uri ''http://host/meta/security-groups'' ''sg-b'' \<noteq> ?k"
    "child_uri ''http://host/meta/security-groups'' ''sg-c'' \<noteq> ?k"
    "child_uri ec2_userdata_uri ''#!/bin/sh'' \<noteq> ?k"
    "child_uri ec2_sshdata_uri ''ssh-rsa AAAA'' \<noteq> ?k"
    by code_simp+
  have t: "\<forall>uri field. listed small_service uri field ?s \<and> child_uri uri field = ?k
      \<longrightarrow> field = ''security-groups''"
    unfolding l using listed_small_object c by fastforce
  have "(?k, Some ?raw) \<in> set (data ?s)" by simp
  from recorded_named_security_groups [OF r this b t]
  have "?raw = replace_char newline CHR '','' ?raw" by simp
  then show False by (simp add: replace_char_def newline_def)
qed

text \<open>
  Claim C3, amended. A listed child that is not yet in the raw table and does not end in
  a slash is requested. When the request fails with \<^verbatim>\<open>HTTPError\<close> or \<^verbatim>\<open>URLError\<close>
  and the child is not named \<^verbatim>\<open>security-groups\<close>, the child is recorded with the
  value \<^verbatim>\<open>None\<close> and the loop goes on. When the response stalls, the
  \<^verbatim>\<open>socket.timeout\<close> leaves the crawl and nothing is recorded. And in every raw table
  a crawl returns, each entry belongs to a listed child and holds what a request for its
  key returned (\<open>recorded\<close>): \<^verbatim>\<open>None\<close> after a caught failure, the body with commas
  for newlines when the child is named \<^verbatim>\<open>security-groups\<close>, and the body as it came,
  empty or not, for every other child.
\<close>

theorem raw_table_recorded:
  "(child_uri uri field \<notin> fst ` set (data self) \<and> \<not> endswith (child_uri uri field) ''/'' \<and>
    field \<noteq> ''security-groups'' \<and>
    (h (length (requests self)) (child_uri uri field) = HTTPError \<or>
     h (length (requests self)) (child_uri uri field) = URLError)
    \<longrightarrow> fetch_fields n h uri recurse (field # rest) self =
         fetch_fields n h uri recurse rest
           (self\<lparr>requests := requests self @ [child_uri uri field],
                 data := AList.update (child_uri uri field) None (data self)\<rparr>))
   \<and> (child_uri uri field \<notin> fst ` set (data self) \<and> \<not> endswith (child_uri uri field) ''/'' \<and>
      h (length (requests self)) (child_uri uri field) = Timeout
    \<longrightarrow> fetch_fields n h uri recurse (field # rest) self = Some (Inl SocketTimeout))
   \<and> (recorded h self \<and> fetch n h uri recurse self = Some (Inr self') \<longrightarrow> recorded h self')"
  using fetch_fields_failed_leaf [of uri field self h n recurse rest]
    fetch_fields_stalled_leaf [of uri field self h n recurse rest]
    recorded_fetch [of h self n uri recurse self']
  by blast

theorem raw_table_recorded_witness:
  "fetch_fields 0 leaf_down ec2_metadata_uri True [''instance-id'']
      ((init None None None)\<lparr>requests := [ec2_metadata_uri]\<rparr>)
     = Some (Inr ((init None None None)
         \<lparr>data := [(''http://169.254.169.254/latest/meta-data/instance-id'', None)],
          requests := [ec2_metadata_uri, ''http://169.254.169.254/latest/meta-data/instance-id'']\<rparr>))
   \<and> fetch_fields 0 leaf_stalls ec2_metadata_uri True [''instance-id'']
      ((init None None None)\<lparr>requests := [ec2_metadata_uri]\<rparr>)
     = Some (Inl SocketTimeout)
   \<and> recorded small_service (init (Some ''http://host/meta/'') None None)
   \<and> fetch (Suc (Suc 0)) small_service ''http://host/meta/'' True
        (init (Some ''http://host/meta/'') None None)
     = Some (Inr (small_object\<lparr>requests := take 5 (requests small_object)\<rparr>))
   \<and> recorded small_service (small_object\<lparr>requests := take 5 (requests small_object)\<rparr>)"
proof -
  let ?s0 = "(init None None None)\<lparr>requests := [ec2_metadata_uri]\<rparr>"
  let ?s1 = "(init None None None)
         \<lparr>data := [(''http://169.254.169.254/latest/meta-data/instance-id'', None)],
          requests := [ec2_metadata_uri, ''http://169.254.169.254/latest/meta-data/instance-id'']\<rparr>"
  let ?i = "init (Some ''http://host/meta/'') None None"
  let ?c = "small_object\<lparr>requests := take 5 (requests small_object)\<rparr>"
  have c: "child_uri ec2_metadata_uri ''instance-id'' = ''http://169.254.169.254/latest/meta-data/instance-id''"
    by code_simp
  have a: "child_uri ec2_metadata_uri ''instance-id'' \<notin> fst ` set (data ?s0) \<and>
      \<not> endswith (child_uri ec2_metadata_uri ''instance-id'') ''/'' \<and>
      ''instance-id'' \<noteq> ''security-groups'' \<and>
      (leaf_down (length (requests ?s0)) (child_uri ec2_metadata_uri ''instance-id'') = HTTPError \<or>
       leaf_down (length (requests ?s0)) (child_uri ec2_metadata_uri ''instance-id'') = URLError)"
    unfolding c by (simp add: init_def leaf_down_def ec2_metadata_uri_def endswith_def)
  have b: "child_uri ec2_metadata_uri ''instance-id'' \<notin> fst ` set (data ?s0) \<and>
      \<not> endswith (child_uri ec2_metadata_uri ''instance-id'') ''/'' \<and>
      leaf_stalls (length (requests ?s0)) (child_uri ec2_metadata_uri ''instance-id'') = Timeout"
    unfolding c by (simp add: init_def leaf_stalls_def ec2_metadata_uri_def endswith_def)
  have r0: "recorded small_service ?i"
    by (simp add: recorded_def init_def)
  have f: "fetch (Suc (Suc 0)) small_service ''http://host/meta/'' True ?i = Some (Inr ?c)"
    by code_simp
  from raw_table_recorded [where uri = ec2_metadata_uri and field = "''instance-id''"
      and self = ?s0 and h = leaf_down and n = 0 and recurse = True and rest = "[]"] a
  have 1: "fetch_fields 0 leaf_down ec2_metadata_uri True [''instance-id''] ?s0 = Some (Inr ?s1)"
    by (simp add: c init_def)
  from raw_table_recorded [where uri = ec2_metadata_uri and field = "''instance-id''"
      and self = ?s0 and h = leaf_stalls and n = 0 and recurse = True and rest = "[]"] b
  have 2: "fetch_fields 0 leaf_stalls ec2_metadata_uri True [''instance-id''] ?s0
      = Some (Inl SocketTimeout)"
    by blast
  from raw_table_recorded [where uri = "''http://host/meta/''" and self = ?i
      and h = small_service and n = "Suc (Suc 0)" and recurse = True and self' = ?c] r0 f
  have 3: "recorded small_service ?c" by blast
  from 1 2 r0 f 3 show ?thesis by blast
qed

section \<open>Nothing answers\<close>

text \<open>
  Claim C5, as stated, at the default object with every request failing: the raw table is
  empty, the table \<open>run\<close> returns is not.
\<close>

theorem run_unreachable_counterexample:
  "run (Suc 0) unreachable (init None None None) =
     Some (Inr ([(''ansible_ec2_user-data'', None),
                 (''ansible_ec2_public-key'', None),
                 (''ansible_ec2_user_data'', None),
                 (''ansible_ec2_public_key'', None)],
                (init None None None)\<lparr>requests := [ec2_metadata_uri, ec2_userdata_uri, ec2_sshdata_uri]\<rparr>))"
  by code_simp

lemma fetch_url_fails:
  assumes "\<forall>i url. h i url = HTTPError \<or> h i url = URLError"
  shows "fetch_url h url self = Inr (None, self\<lparr>requests := requests self @ [url]\<rparr>)"
  using assms fetch_url_caught [of h self url] by blast

lemma flat_of_nothing:
  "add_ec2_region (fix_invalid_varnames
     (AList.update (prefix_fmt ''public-key'') None
       (AList.update (prefix_fmt ''user-data'') None
         (mangle_fields [] uri [''public-keys-0'']))))
   = [(''ansible_ec2_user-data'', None),
      (''ansible_ec2_public-key'', None),
      (''ansible_ec2_user_data'', None),
      (''ansible_ec2_public_key'', None)]"
  by (simp add: mangle_fields_def filter_pattern_def prefix_fmt_def fix_invalid_varnames_def
      fix_entry_def fix_key_def replace_char_def add_ec2_region_def dict_get_def)

text \<open>
  Claim C5, amended. When every request fails with one of the two exceptions
  \<^verbatim>\<open>_fetch\<close> catches, as it does when nothing answers, \<open>run\<close> returns for any
  fuel but none, the raw table is empty, and the table returned holds no fact obtained
  from the service: the keys \<^verbatim>\<open>ansible_ec2_user_data\<close> and
  \<^verbatim>\<open>ansible_ec2_public_key\<close> are there, and every value in the table is
  \<^verbatim>\<open>None\<close>.
\<close>

theorem run_all_requests_fail:
  assumes "\<forall>i url. h i url = HTTPError \<or> h i url = URLError"
  shows "\<exists>d self'. run (Suc n) h (init metadata_uri sshdata_uri userdata_uri) = Some (Inr (d, self'))
           \<and> data self' = []
           \<and> map_of d ''ansible_ec2_user_data'' = Some None
           \<and> map_of d ''ansible_ec2_public_key'' = Some None
           \<and> snd ` set d = {None}"
proof -
  let ?s = "init metadata_uri sshdata_uri userdata_uri"
  have d: "data ?s = []" by (simp add: init_def)
  have "run (Suc n) h ?s =
      Some (Inr ([(''ansible_ec2_user-data'', None),
                  (''ansible_ec2_public-key'', None),
                  (''ansible_ec2_user_data'', None),
                  (''ansible_ec2_public_key'', None)],
                 ?s\<lparr>requests := requests ?s @ [uri_meta ?s, uri_user ?s, uri_ssh ?s]\<rparr>))"
    unfolding run_def
    by (simp add: fetch_url_fails [OF assms] d flat_of_nothing)
  then show ?thesis
    by (simp add: d)
qed

theorem run_all_requests_fail_witness:
  "(\<exists>d self'. run (Suc 0) unreachable (init None None None) = Some (Inr (d, self'))
           \<and> data self' = []
           \<and> map_of d ''ansible_ec2_user_data'' = Some None
           \<and> map_of d ''ansible_ec2_public_key'' = Some None
           \<and> snd ` set d = {None})"
proof -
  have "\<forall>i url. unreachable i url = HTTPError \<or> unreachable i url = URLError"
    by (simp add: unreachable_def)
  from run_all_requests_fail [OF this] show ?thesis .
qed

section \<open>Termination of the crawl\<close>

lemma fetch_endless: "fetch n endless uri True self = None"
proof (induction n arbitrary: uri self)
  case 0
  show ?case by simp
next
  case (Suc n)
  have u: "fetch_url endless uri self = Inr (Some ''a/'', self\<lparr>requests := requests self @ [uri]\<rparr>)"
    by (simp add: fetch_url_def endless_def)
  have e: "endswith ''a/'' ''/''" by (simp add: endswith_def)
  show ?case
    by (simp add: u e newline_def Suc.IH)
qed

text \<open>
  Claim C6, as stated, at a service that answers every URL with a listing of one
  sub-directory: whatever the fuel, \<open>fetch\<close> runs out of it. Sub-directory URIs are
  never stored in the raw table, so the test \<^verbatim>\<open>new_uri not in self._data\<close> does not
  stop the descent.
\<close>

theorem fetch_endless_counterexample:
  "\<not> (\<exists>n. fetch n endless ec2_metadata_uri True (init None None None) \<noteq> None)"
  by (simp add: fetch_endless)

text \<open>
  A listing that names the same sub-directory twice has it requested twice: the log of
  the requests shows the URI two times.
\<close>

lemma fetch_twice_listed:
  "fetch (Suc (Suc 0)) twice_listed ec2_metadata_uri True (init None None None) =
     Some (Inr ((init None None None)
       \<lparr>requests := [ec2_metadata_uri, ''http://169.254.169.254/latest/meta-data/d/'',
                      ''http://169.254.169.254/latest/meta-data/d/'']\<rparr>))"
  by code_simp

lemma slashes_append: "slashes (a @ b) = slashes a + slashes b"
  by (simp add: slashes_def)

lemma slashes_endswith: "endswith f ''/'' \<Longrightarrow> 0 < slashes f"
proof -
  assume "endswith f ''/''"
  then have "f \<noteq> []" "last f = CHR ''/''" by (simp_all add: endswith_single)
  then have "CHR ''/'' \<in> set f" using last_in_set by metis
  then show ?thesis by (auto simp: slashes_def filter_empty_conv)
qed

lemma fetch_fields_returns:
  assumes "\<And>f s. f \<in> set fs \<Longrightarrow> endswith f ''/'' \<Longrightarrow> fetch n h (uri @ f) True s \<noteq> None"
  shows "fetch_fields n h uri recurse fs self \<noteq> None"
  using assms
proof (induction fs arbitrary: self)
  case Nil
  show ?case by simp
next
  case (Cons field rest)
  have r: "fetch_fields n h uri recurse rest s \<noteq> None" for s
    by (rule Cons.IH) (simp add: Cons.prems)
  have d: "endswith field ''/'' \<Longrightarrow> fetch n h (uri @ field) True self \<noteq> None"
    by (rule Cons.prems) simp_all
  show ?case
    using r d
    by (auto simp: fetch_fields_Cons simp del: fetch_fields.simps split: option.splits sum.splits)
qed

lemma fetch_returns:
  assumes "nesting_bounded h m"
  shows "m - slashes uri < n \<Longrightarrow> fetch n h uri recurse self \<noteq> None"
proof (induction n arbitrary: uri recurse self)
  case 0
  then show ?case by simp
next
  case (Suc n)
  show ?case
  proof (cases "h (length (requests self)) uri")
    case (Body raw)
    have "fetch_fields n h uri recurse (split_on newline raw) s \<noteq> None" for s
    proof (rule fetch_fields_returns)
      fix f s'
      assume f: "f \<in> set (split_on newline raw)" and e: "endswith f ''/''"
      from assms Body f e have "\<not> m \<le> slashes uri"
        unfolding nesting_bounded_def by blast
      moreover have "slashes uri < slashes (uri @ f)"
        using slashes_endswith [OF e] by (simp add: slashes_append)
      ultimately have "m - slashes (uri @ f) < n"
        using Suc.prems by arith
      then show "fetch n h (uri @ f) True s' \<noteq> None"
        by (rule Suc.IH)
    qed
    with Body show ?thesis
      by (simp add: fetch_url_def)
  next
    case HTTPError
    then show ?thesis by (simp add: fetch_url_def)
  next
    case URLError
    then show ?thesis by (simp add: fetch_url_def)
  next
    case Timeout
    then show ?thesis by (simp add: fetch_url_def)
  qed
qed

lemma fetch_fields_known_leaf:
  assumes "child_uri uri field \<in> fst ` set (data self)" and "\<not> endswith field ''/''"
  shows "fetch_fields n h uri recurse (field # rest) self = fetch_fields n h uri recurse rest self"
  using assms by (simp add: fetch_fields_Cons leaf_step_eq del: fetch_fields.simps)

text \<open>
  Claim C6, amended. When the nesting of the service is bounded (no listing under a URL
  with \<open>m\<close> slashes or more names a sub-directory), \<open>fetch\<close> returns or raises with
  fuel above \<open>m\<close> minus the slashes of the URI it starts from. And a listed leaf whose
  URI is already a key of the raw table is skipped: no request is made for it and the
  table stays as it is.
\<close>

theorem fetch_terminates_bounded:
  "(nesting_bounded h m \<and> m - slashes uri < n \<longrightarrow> fetch n h uri recurse self \<noteq> None)
   \<and> (child_uri uri field \<in> fst ` set (data self) \<and> \<not> endswith field ''/'' \<longrightarrow>
        fetch_fields n h uri recurse (field # rest) self = fetch_fields n h uri recurse rest self)"
  using fetch_returns fetch_fields_known_leaf by blast

lemma small_service_bounded: "nesting_bounded small_service 5"
  unfolding nesting_bounded_def small_service_def
  by (auto simp: slashes_def newline_def endswith_def split: if_splits)

theorem fetch_terminates_bounded_witness:
  "nesting_bounded small_service 5
   \<and> 5 - slashes ''http://host/meta/'' < Suc (Suc 0)
   \<and> fetch (Suc (Suc 0)) small_service ''http://host/meta/'' True
        (init (Some ''http://host/meta/'') None None) \<noteq> None
   \<and> fetch_fields 0 small_service ''http://host/meta/'' True [''instance-id''] small_object
        = Some (Inr small_object)"
proof -
  have s: "5 - slashes ''http://host/meta/'' < Suc (Suc 0)"
    by (simp add: slashes_def)
  from fetch_terminates_bounded [where h = small_service and m = 5 and uri = "''http://host/meta/''"
      and n = "Suc (Suc 0)" and recurse = True and self = "init (Some ''http://host/meta/'') None None"]
    small_service_bounded s
  have 1: "fetch (Suc (Suc 0)) small_service ''http://host/meta/'' True
        (init (Some ''http://host/meta/'') None None) \<noteq> None"
    by blast
  have k: "child_uri ''http://host/meta/'' ''instance-id'' \<in> fst ` set (data small_object)
      \<and> \<not> endswith ''instance-id'' ''/''"
    by (simp add: child_uri_def endswith_def small_object_def)
  from fetch_terminates_bounded [where uri = "''http://host/meta/''" and field = "''instance-id''"
      and self = small_object and n = 0 and h = small_service and recurse = True and rest = "[]"] k
  have 2: "fetch_fields 0 small_service ''http://host/meta/'' True [''instance-id''] small_object
        = Some (Inr small_object)"
    by simp
  from small_service_bounded s 1 2 show ?thesis by blast
qed

section \<open>Crawling a tree\<close>

lemma split_on_no_sep: "c \<notin> set x \<Longrightarrow> split_on c x = [x]"
  by (induction x) auto

lemma split_on_append_sep: "c \<notin> set x \<Longrightarrow> split_on c (x @ c # rest) = x # split_on c rest"
  by (induction x) auto

lemma split_on_join:
  "xs \<noteq> [] \<Longrightarrow> \<forall>x \<in> set xs. c \<notin> set x \<Longrightarrow> split_on c (join [c] xs) = xs"
proof (induction xs)
  case Nil
  then show ?case by simp
next
  case (Cons x xs)
  show ?case
  proof (cases xs)
    case Nil
    with Cons.prems show ?thesis by (simp add: split_on_no_sep)
  next
    case (Cons y ys)
    with Cons.prems Cons.IH have "split_on c (join [c] (y # ys)) = y # ys" by simp
    with Cons Cons.prems show ?thesis
      using split_on_append_sep [of c x "join [c] (y # ys)"] by simp
  qed
qed

lemma join_not_Nil: "xs \<noteq> [] \<Longrightarrow> hd xs \<noteq> [] \<Longrightarrow> join sep xs \<noteq> []"
proof (cases xs)
  case Nil
  assume "xs \<noteq> []"
  with Nil show ?thesis by simp
next
  case (Cons x ys)
  assume "hd xs \<noteq> []"
  with Cons show ?thesis by (cases ys) auto
qed

lemma entry_name_good:
  "good_name name \<Longrightarrow> entry_name (name, t) \<noteq> [] \<and> newline \<notin> set (entry_name (name, t))"
  by (cases t) (auto simp: entry_name_def good_name_def newline_def)

lemma good_names_entries:
  assumes "list_all good_name (names_children cs)" and "e \<in> set cs"
  shows "entry_name e \<noteq> [] \<and> newline \<notin> set (entry_name e)"
  using assms
proof (induction cs)
  case Nil
  then show ?case by simp
next
  case (Cons a cs)
  obtain name t where a: "a = (name, t)" by (cases a)
  from Cons show ?case
    by (auto simp: a entry_name_good)
qed

lemma split_listing:
  assumes "list_all good_name (names_children cs)" and "cs \<noteq> []"
  shows "listing cs \<noteq> []" and "split_on newline (listing cs) = map entry_name cs"
proof -
  have e: "\<forall>x \<in> set (map entry_name cs). x \<noteq> [] \<and> newline \<notin> set x"
    using good_names_entries [OF assms(1)] by auto
  from assms(2) have ne: "map entry_name cs \<noteq> []" by simp
  then have "hd (map entry_name cs) \<in> set (map entry_name cs)" by (rule hd_in_set)
  with e have "hd (map entry_name cs) \<noteq> []" by blast
  with ne show "listing cs \<noteq> []"
    unfolding listing_def by (rule join_not_Nil)
  from e have "\<forall>x \<in> set (map entry_name cs). newline \<notin> set x" by blast
  with ne show "split_on newline (listing cs) = map entry_name cs"
    unfolding listing_def by (rule split_on_join)
qed

lemma crawled_refl: "crawled self [] self"
  by (simp add: crawled_def)

lemma crawled_trans:
  "crawled a L1 b \<Longrightarrow> crawled b L2 c \<Longrightarrow> crawled a (L1 @ L2) c"
  by (auto simp: crawled_def)

lemma crawled_requests:
  "crawled (self\<lparr>requests := r\<rparr>) L self' \<Longrightarrow> crawled self L self'"
  by (simp add: crawled_def)

lemma crawled_store:
  "crawled self [k] (self\<lparr>requests := r, data := AList.update k (Some v) (data self)\<rparr>)"
  using set_update_subset [of k "Some v" "data self"]
  by (auto simp: crawled_def dom_update)

lemma leaf_child_step:
  assumes "endswith uri ''/''" and "good_name name"
    and "uri @ name \<notin> fst ` set (data self)"
    and "h (length (requests self)) (uri @ name) = Body c"
  shows "fetch_fields n h uri True (name # rest) self =
         fetch_fields n h uri True rest
           (self\<lparr>requests := requests self @ [uri @ name],
                 data := AList.update (uri @ name)
                   (Some (if name = ''security-groups'' then replace_char newline CHR '','' c else c))
                   (data self)\<rparr>)"
proof -
  have c: "child_uri uri name = uri @ name"
    using assms(1) by (simp add: child_uri_def)
  have "name \<noteq> []" "CHR ''/'' \<notin> set name"
    using assms(2) by (simp_all add: good_name_def)
  then have "name \<noteq> []" "last name \<noteq> CHR ''/''"
    by (metis last_in_set)+
  then have e: "\<not> endswith name ''/''" "\<not> endswith (uri @ name) ''/''"
    by (simp_all add: endswith_single)
  show ?thesis
    using assms(3,4) e
    by (simp add: fetch_fields_Cons leaf_step_eq c del: fetch_fields.simps)
qed

lemma dir_child_step:
  assumes "endswith uri ''/''"
    and "fetch n h (uri @ name @ ''/'') True self = Some (Inr self1)"
  shows "fetch_fields n h uri True ((name @ ''/'') # rest) self = fetch_fields n h uri True rest self1"
proof -
  have c: "child_uri uri (name @ ''/'') = uri @ name @ ''/''"
    using assms(1) by (simp add: child_uri_def)
  have e: "endswith (name @ ''/'') ''/''" "endswith (uri @ name @ ''/'') ''/''"
    by (simp_all add: endswith_single)
  show ?thesis
    using assms(2) e
    by (simp add: fetch_fields_Cons leaf_step_eq c del: fetch_fields.simps)
qed

lemma crawl_dir:
  assumes ch: "\<And>s. fst ` set (data s) \<inter> set (leaves_children uri cs) = {} \<Longrightarrow>
      \<exists>s'. fetch_fields n h uri True (map entry_name cs) s = Some (Inr s') \<and>
           crawled s (leaves_children uri cs) s'"
    and l: "\<forall>i. h i uri = Body (listing cs)"
    and g: "list_all good_name (names_children cs)"
    and d: "fst ` set (data self) \<inter> set (leaves_children uri cs) = {}"
  shows "\<exists>self'. fetch (Suc n) h uri True self = Some (Inr self') \<and>
           crawled self (leaves_children uri cs) self'"
proof (cases "cs = []")
  case True
  then have "fetch (Suc n) h uri True self = Some (Inr (self\<lparr>requests := requests self @ [uri]\<rparr>))"
    using l by (simp add: fetch_Suc fetch_url_def listing_def del: fetch.simps)
  moreover have "crawled self (leaves_children uri cs) (self\<lparr>requests := requests self @ [uri]\<rparr>)"
    using True by (simp add: crawled_def)
  ultimately show ?thesis by blast
next
  case False
  let ?s1 = "self\<lparr>requests := requests self @ [uri]\<rparr>"
  from split_listing [OF g False] l
  have f: "fetch (Suc n) h uri True self = fetch_fields n h uri True (map entry_name cs) ?s1"
    by (simp add: fetch_Suc fetch_url_def del: fetch.simps)
  from d have "fst ` set (data ?s1) \<inter> set (leaves_children uri cs) = {}" by simp
  from ch [OF this] obtain s' :: Ec2Metadata where
    "fetch_fields n h uri True (map entry_name cs) ?s1 = Some (Inr s')"
    "crawled ?s1 (leaves_children uri cs) s'" by blast
  with f show ?thesis
    using crawled_requests by metis
qed

text \<open>
  The crawl of a well-formed tree, by induction on the tree: with fuel for the levels
  below, the loop over the listing of a directory returns, and it has added to the raw
  table exactly the leaves below the directory, each with the content it was served.
\<close>

lemma crawl_tree:
  "\<lbrakk>\<exists>ds. t = Dir ds; endswith uri ''/''; list_all good_name (names_node t);
    serves_node h uri name t; distinct (leaves_node uri name t);
    fst ` set (data self) \<inter> set (leaves_node uri name t) = {}; height_node t \<le> n\<rbrakk>
   \<Longrightarrow> \<exists>self'. fetch n h (uri @ name @ ''/'') True self = Some (Inr self') \<and>
         crawled self (leaves_node uri name t) self'"
  "\<lbrakk>endswith uri ''/''; list_all good_name (names_children cs);
    serves_children h uri cs; distinct (leaves_children uri cs);
    fst ` set (data self) \<inter> set (leaves_children uri cs) = {}; height_children cs \<le> n\<rbrakk>
   \<Longrightarrow> \<exists>self'. fetch_fields n h uri True (map entry_name cs) self = Some (Inr self') \<and>
         crawled self (leaves_children uri cs) self'"
proof (induction uri name t and uri cs arbitrary: n self and n self
    rule: leaves_node_leaves_children.induct)
  case (1 uri name c)
  then show ?case by simp
next
  case (2 uri name ds)
  from "2.prems"(7) obtain n' where n: "n = Suc n'" and hn: "height_children ds \<le> n'"
    by (cases n) auto
  have e: "endswith (uri @ name @ ''/'') ''/''" by (simp add: endswith_single)
  have "\<exists>self'. fetch (Suc n') h (uri @ name @ ''/'') True self = Some (Inr self') \<and>
           crawled self (leaves_children (uri @ name @ ''/'') ds) self'"
  proof (rule crawl_dir)
    fix s :: Ec2Metadata
    assume "fst ` set (data s) \<inter> set (leaves_children (uri @ name @ ''/'') ds) = {}"
    with e "2.prems" hn
    show "\<exists>s'. fetch_fields n' h (uri @ name @ ''/'') True (map entry_name ds) s = Some (Inr s') \<and>
           crawled s (leaves_children (uri @ name @ ''/'') ds) s'"
      by (intro "2.IH") simp_all
  next
    show "\<forall>i. h i (uri @ name @ ''/'') = Body (listing ds)"
      using "2.prems"(4) by simp
    show "list_all good_name (names_children ds)"
      using "2.prems"(3) by simp
    show "fst ` set (data self) \<inter> set (leaves_children (uri @ name @ ''/'') ds) = {}"
      using "2.prems"(6) by simp
  qed
  then show ?case by (simp add: n)
next
  case (3 uri)
  show ?case by (simp add: crawled_refl)
next
  case (4 uri name t cs)
  have rest: "list_all good_name (names_children cs)" "serves_children h uri cs"
    "distinct (leaves_children uri cs)" "height_children cs \<le> n"
    using "4.prems" by simp_all
  show ?case
  proof (cases t)
    case (Leaf c)
    let ?v = "if name = ''security-groups'' then replace_char newline CHR '','' c else c"
    let ?s2 = "self\<lparr>requests := requests self @ [uri @ name],
                 data := AList.update (uri @ name) (Some ?v) (data self)\<rparr>"
    have g: "good_name name" using "4.prems"(2) by simp
    have k: "uri @ name \<notin> fst ` set (data self)" using "4.prems"(5) Leaf by auto
    have b: "h (length (requests self)) (uri @ name) = Body c" using "4.prems"(3) Leaf by simp
    have step: "fetch_fields n h uri True (map entry_name ((name, t) # cs)) self =
        fetch_fields n h uri True (map entry_name cs) ?s2"
      using leaf_child_step [where h = h and uri = uri and name = name and self = self and c = c
          and n = n and rest = "map entry_name cs", OF "4.prems"(1) g k b] Leaf
      by (simp add: entry_name_def)
    have c1: "crawled self [uri @ name] ?s2" by (rule crawled_store)
    have "fst ` set (data ?s2) \<inter> set (leaves_children uri cs) = {}"
      using "4.prems"(4,5) Leaf by (auto simp: dom_update)
    from "4.IH"(2) [OF "4.prems"(1) rest(1,2,3) this rest(4)]
    obtain self' :: Ec2Metadata where
      r: "fetch_fields n h uri True (map entry_name cs) ?s2 = Some (Inr self')"
      and c2: "crawled ?s2 (leaves_children uri cs) self'" by blast
    from crawled_trans [OF c1 c2] have "crawled self (leaves_children uri ((name, t) # cs)) self'"
      using Leaf by simp
    with step r show ?thesis by metis
  next
    case (Dir ds)
    have "\<exists>self'. fetch n h (uri @ name @ ''/'') True self = Some (Inr self') \<and>
         crawled self (leaves_node uri name t) self'"
      using "4.prems" Dir by (intro "4.IH"(1)) auto
    then obtain self1 :: Ec2Metadata where
      f: "fetch n h (uri @ name @ ''/'') True self = Some (Inr self1)"
      and c1: "crawled self (leaves_node uri name t) self1" by blast
    have step: "fetch_fields n h uri True (map entry_name ((name, t) # cs)) self =
        fetch_fields n h uri True (map entry_name cs) self1"
      using dir_child_step [where rest = "map entry_name cs", OF "4.prems"(1) f] Dir
      by (simp add: entry_name_def)
    have "fst ` set (data self1) \<inter> set (leaves_children uri cs) = {}"
      using "4.prems"(4,5) c1 by (auto simp: crawled_def)
    from "4.IH"(2) [OF "4.prems"(1) rest(1,2,3) this rest(4)]
    obtain self' :: Ec2Metadata where
      r: "fetch_fields n h uri True (map entry_name cs) self1 = Some (Inr self')"
      and c2: "crawled self1 (leaves_children uri cs) self'" by blast
    from crawled_trans [OF c1 c2] have "crawled self (leaves_children uri ((name, t) # cs)) self'"
      by simp
    with step r show ?thesis by metis
  qed
qed

lemma crawl_top:
  assumes "well_formed uri cs" and "serves h uri cs"
    and "fst ` set (data self) \<inter> set (leaves_children uri cs) = {}"
    and "height_children cs < n"
  shows "\<exists>self'. fetch n h uri True self = Some (Inr self') \<and>
           crawled self (leaves_children uri cs) self'"
proof -
  from assms(4) obtain n' where n: "n = Suc n'" and hn: "height_children cs \<le> n'"
    by (cases n) auto
  have "\<exists>self'. fetch (Suc n') h uri True self = Some (Inr self') \<and>
           crawled self (leaves_children uri cs) self'"
  proof (rule crawl_dir)
    fix s :: Ec2Metadata
    assume "fst ` set (data s) \<inter> set (leaves_children uri cs) = {}"
    with assms(1,2) hn
    show "\<exists>s'. fetch_fields n' h uri True (map entry_name cs) s = Some (Inr s') \<and>
           crawled s (leaves_children uri cs) s'"
      by (intro crawl_tree(2)) (simp_all add: well_formed_def serves_def)
  next
    show "\<forall>i. h i uri = Body (listing cs)" using assms(2) by (simp add: serves_def)
    show "list_all good_name (names_children cs)" using assms(1) by (simp add: well_formed_def)
    show "fst ` set (data self) \<inter> set (leaves_children uri cs) = {}" by (fact assms(3))
  qed
  then show ?thesis by (simp add: n)
qed

text \<open>
  A tree whose directories have no two children of the same name, under a URI that ends
  in a slash and with names that are not empty and free of slashes and newlines, is well
  formed.
\<close>

lemma takeWhile_sep: "c \<notin> set n \<Longrightarrow> takeWhile (\<lambda>x. x \<noteq> c) (n @ c # r) = n"
  by (induction n) auto

lemma takeWhile_name:
  assumes "CHR ''/'' \<notin> set n" and "r = [] \<or> hd r = CHR ''/''"
  shows "takeWhile (\<lambda>c. c \<noteq> CHR ''/'') (n @ r) = n"
proof (cases r)
  case Nil
  with assms(1) show ?thesis by (auto simp: takeWhile_eq_all_conv)
next
  case (Cons a r')
  with assms(2) have "a = CHR ''/''" by simp
  with Cons assms(1) show ?thesis by (simp add: takeWhile_sep)
qed

lemma same_name:
  assumes "CHR ''/'' \<notin> set n1" "CHR ''/'' \<notin> set n2"
    and "r1 = [] \<or> hd r1 = CHR ''/''" "r2 = [] \<or> hd r2 = CHR ''/''"
    and "n1 @ r1 = n2 @ r2"
  shows "n1 = n2"
  using takeWhile_name [OF assms(1,3)] takeWhile_name [OF assms(2,4)] assms(5) by simp

lemma leaves_under:
  "u \<in> set (leaves_node uri name t) \<Longrightarrow> \<exists>r. u = uri @ name @ r \<and> (r = [] \<or> hd r = CHR ''/'')"
  "u \<in> set (leaves_children uri cs) \<Longrightarrow>
     \<exists>name r. name \<in> fst ` set cs \<and> u = uri @ name @ r \<and> (r = [] \<or> hd r = CHR ''/'')"
proof (induction uri name t and uri cs rule: leaves_node_leaves_children.induct)
  case (1 uri name c)
  then show ?case by simp
next
  case (2 uri name ds)
  then obtain name' r where "u = (uri @ name @ ''/'') @ name' @ r" by auto
  then have "u = uri @ name @ (CHR ''/'' # name' @ r)" by simp
  then show ?case by (metis list.sel(1))
next
  case (3 uri)
  then show ?case by simp
next
  case (4 uri name t cs)
  from "4.prems" consider "u \<in> set (leaves_node uri name t)" | "u \<in> set (leaves_children uri cs)"
    by auto
  then show ?case
  proof cases
    case 1
    from "4.IH"(1) [OF 1] show ?thesis by auto
  next
    case 2
    from "4.IH"(2) [OF 2] show ?thesis by auto
  qed
qed

lemma names_children_fst: "fst ` set cs \<subseteq> set (names_children cs)"
  by (induction cs) auto

lemma distinct_names_distinct_leaves_aux:
  "list_all good_name (names_node t) \<Longrightarrow> distinct_names_node t
     \<Longrightarrow> distinct (leaves_node uri name t)"
  "list_all good_name (names_children cs) \<Longrightarrow> distinct_names_children cs
     \<Longrightarrow> distinct (leaves_children uri cs)"
proof (induction uri name t and uri cs rule: leaves_node_leaves_children.induct)
  case (1 uri name c)
  show ?case by simp
next
  case (2 uri name ds)
  then show ?case by simp
next
  case (3 uri)
  show ?case by simp
next
  case (4 uri name t cs)
  have g: "good_name name" using "4.prems"(1) by simp
  have a: "distinct (leaves_node uri name t)"
    using "4.prems" by (intro "4.IH"(1)) simp_all
  have b: "distinct (leaves_children uri cs)"
    using "4.prems" by (intro "4.IH"(2)) simp_all
  have "set (leaves_node uri name t) \<inter> set (leaves_children uri cs) = {}"
  proof (rule ccontr)
    assume "set (leaves_node uri name t) \<inter> set (leaves_children uri cs) \<noteq> {}"
    then obtain u where u1: "u \<in> set (leaves_node uri name t)"
      and u2: "u \<in> set (leaves_children uri cs)" by blast
    from leaves_under(1) [OF u1] obtain r1 where
      r1: "u = uri @ name @ r1" "r1 = [] \<or> hd r1 = CHR ''/''" by blast
    from leaves_under(2) [OF u2] obtain name' r2 where
      r2: "name' \<in> fst ` set cs" "u = uri @ name' @ r2" "r2 = [] \<or> hd r2 = CHR ''/''" by blast
    from r2(1) names_children_fst [of cs] "4.prems"(1) have g': "good_name name'"
      by (auto simp: list_all_iff)
    from r1(1) r2(2) have "name @ r1 = name' @ r2" by simp
    with g g' r1(2) r2(3) have "name = name'"
      by (intro same_name [of name name' r1 r2]) (simp_all add: good_name_def)
    with r2(1) "4.prems"(2) show False by simp
  qed
  with a b show ?case by simp
qed

lemma distinct_names_well_formed:
  assumes "endswith uri ''/''" and "list_all good_name (names_children cs)"
    and "distinct_names_children cs"
  shows "well_formed uri cs"
  using assms distinct_names_distinct_leaves_aux(2) by (simp add: well_formed_def)

section \<open>The number of keys\<close>

lemma fix_key_clean: "CHR '':'' \<notin> set (fix_key k) \<and> CHR ''-'' \<notin> set (fix_key k)"
  by (auto simp: fix_key_def replace_char_def)

lemma fix_key_id: "CHR '':'' \<notin> set k \<Longrightarrow> CHR ''-'' \<notin> set k \<Longrightarrow> fix_key k = k"
  by (induction k) (auto simp: fix_key_def replace_char_def)

lemma clean_keys_fix_invalid_varnames:
  "clean_keys (fix_invalid_varnames d) = fix_key ` fst ` set d"
proof -
  have "clean_keys (fix_invalid_varnames d) \<subseteq> fix_key ` fst ` set d"
  proof
    fix k assume k: "k \<in> clean_keys (fix_invalid_varnames d)"
    then have c: "CHR '':'' \<notin> set k" "CHR ''-'' \<notin> set k" by (simp_all add: clean_keys_def)
    from k consider "k \<in> fst ` set d" | "k \<in> fix_key ` fst ` set d"
      by (auto simp: clean_keys_def keys_fix_invalid_varnames)
    then show "k \<in> fix_key ` fst ` set d"
    proof cases
      case 1
      with fix_key_id [OF c] show ?thesis by (metis image_eqI)
    next
      case 2
      then show ?thesis .
    qed
  qed
  moreover have "fix_key ` fst ` set d \<subseteq> clean_keys (fix_invalid_varnames d)"
  proof
    fix k assume "k \<in> fix_key ` fst ` set d"
    then obtain k0 where k0: "k0 \<in> fst ` set d" "k = fix_key k0" by blast
    show "k \<in> clean_keys (fix_invalid_varnames d)"
    proof (cases "CHR '':'' \<in> set k0 \<or> CHR ''-'' \<in> set k0")
      case True
      with k0 show ?thesis
        using fix_key_clean [of k0] by (auto simp: clean_keys_def keys_fix_invalid_varnames)
    next
      case False
      then have "fix_key k0 = k0" by (simp add: fix_key_id)
      with k0 False show ?thesis
        by (auto simp: clean_keys_def keys_fix_invalid_varnames)
    qed
  qed
  ultimately show ?thesis by blast
qed

lemma keys_in_fix_invalid_varnames:
  assumes "CHR '':'' \<notin> set k" "CHR ''-'' \<notin> set k"
  shows "k \<in> fst ` set (fix_invalid_varnames d) \<longleftrightarrow> k \<in> fix_key ` fst ` set d"
proof -
  have "k \<in> clean_keys (fix_invalid_varnames d) \<longleftrightarrow> k \<in> fst ` set (fix_invalid_varnames d)"
    using assms by (simp add: clean_keys_def)
  then show ?thesis by (simp add: clean_keys_fix_invalid_varnames)
qed

lemma clean_keys_add_ec2_region:
  "clean_keys (add_ec2_region d) =
     clean_keys d \<union> (case dict_get d ''ansible_ec2_placement_availability_zone'' of
                        None \<Rightarrow> {} | Some z \<Rightarrow> {''ansible_ec2_placement_region''})"
  by (auto simp: clean_keys_def keys_add_ec2_region split: option.splits)

lemma set_delete_subset: "set (AList.delete k d) \<subseteq> set d"
  by (auto simp: AList.delete_eq)

lemma set_filter_pattern_subset: "set (filter_pattern d p) \<subseteq> set d"
proof -
  have "set (foldl (\<lambda>d key. if re_search p key then AList.delete key d else d) d ks) \<subseteq> set d" for ks
  proof (induction ks arbitrary: d)
    case Nil
    show ?case by simp
  next
    case (Cons k ks)
    show ?case
      using Cons.IH [of "AList.delete k d"] Cons.IH [of d] set_delete_subset [of k d]
      by auto
  qed
  then show ?thesis by (simp add: filter_pattern_def)
qed

lemma set_foldl_filter_pattern_subset: "set (foldl filter_pattern d ps) \<subseteq> set d"
proof (induction ps arbitrary: d)
  case Nil
  show ?case by simp
next
  case (Cons p ps)
  show ?case
    using Cons.IH [of "filter_pattern d p"] set_filter_pattern_subset [of d p] by auto
qed

lemma values_foldl_mangle_entry:
  "snd ` set (foldl (mangle_entry uri) d kvs) \<subseteq> snd ` set d \<union> snd ` set kvs"
proof (induction kvs arbitrary: d)
  case Nil
  show ?case by simp
next
  case (Cons kv kvs)
  obtain k v where kv: "kv = (k, v)" by (cases kv)
  have "snd ` set (mangle_entry uri d kv) \<subseteq> insert v (snd ` set d)"
    using set_update_subset [of "prefix_fmt (new_key uri k)" v d]
    by (auto simp: mangle_entry_def kv)
  with Cons.IH [of "mangle_entry uri d kv"] show ?case
    by (auto simp: kv)
qed

lemma values_mangle_fields:
  "snd ` set (mangle_fields raw uri pats) \<subseteq> snd ` set raw"
proof -
  have "snd ` set (mangle_fields raw uri pats) \<subseteq> snd ` set (foldl (mangle_entry uri) [] raw)"
    unfolding mangle_fields_def using set_foldl_filter_pattern_subset by (metis image_mono)
  with values_foldl_mangle_entry [of uri "[]" raw] show ?thesis by auto
qed

lemma set_foldl_fix_entry:
  "set (foldl fix_entry d kvs) \<subseteq> set d \<union> (\<lambda>(k, v). (fix_key k, v)) ` set kvs"
proof (induction kvs arbitrary: d)
  case Nil
  show ?case by simp
next
  case (Cons kv kvs)
  obtain k v where kv: "kv = (k, v)" by (cases kv)
  have "set (fix_entry d kv) \<subseteq> insert (fix_key k, v) (set d)"
    using set_update_subset [of "fix_key k" v d] by (auto simp: fix_entry_def kv)
  with Cons.IH [of "fix_entry d kv"] show ?case
    by (auto simp: kv)
qed

lemma set_fix_invalid_varnames:
  "set (fix_invalid_varnames d) \<subseteq> set d \<union> (\<lambda>(k, v). (fix_key k, v)) ` set d"
  by (simp add: fix_invalid_varnames_def set_foldl_fix_entry)

lemma dict_get_not_None:
  assumes "(k, None) \<notin> set d"
  shows "dict_get d k \<noteq> None \<longleftrightarrow> k \<in> fst ` set d"
proof (cases "map_of d k")
  case None
  then have "k \<notin> fst ` set d" by (simp add: map_of_eq_None_iff)
  with None show ?thesis by (simp add: dict_get_def)
next
  case (Some v)
  then have m: "(k, v) \<in> set d" by (rule map_of_SomeD)
  with assms have "v \<noteq> None" by (cases v) auto
  moreover from m have "k \<in> fst ` set d" by (rule image_eqI [rotated]) simp
  moreover from Some have "dict_get d k = v" by (simp add: dict_get_def)
  ultimately show ?thesis by simp
qed

lemma set_unfiltered: "set xs = set ys \<Longrightarrow> set (unfiltered uri xs) = set (unfiltered uri ys)"
  by (simp add: unfiltered_def)

lemma fix_keys_mangle_fields:
  "fix_key ` fst ` set (mangle_fields raw uri [''public-keys-0''])
     = fact_name uri ` set (unfiltered uri (map fst raw))"
  by (auto simp: keys_mangle_fields unfiltered_def fact_name_def image_iff)

lemma clean_keys_flat:
  assumes nn: "None \<notin> snd ` set raw"
  shows "clean_keys (add_ec2_region (fix_invalid_varnames
           (AList.update (prefix_fmt ''public-key'') p
             (AList.update (prefix_fmt ''user-data'') u
               (mangle_fields raw uri [''public-keys-0'']))))) =
         fact_name uri ` set (unfiltered uri (map fst raw))
           \<union> {''ansible_ec2_user_data'', ''ansible_ec2_public_key''}
           \<union> (if ''ansible_ec2_placement_availability_zone''
                    \<in> fact_name uri ` set (unfiltered uri (map fst raw))
               then {''ansible_ec2_placement_region''} else {})"
proof -
  let ?Z = "''ansible_ec2_placement_availability_zone''"
  let ?d0 = "mangle_fields raw uri [''public-keys-0'']"
  let ?d2 = "AList.update (prefix_fmt ''public-key'') p (AList.update (prefix_fmt ''user-data'') u ?d0)"
  let ?d3 = "fix_invalid_varnames ?d2"
  let ?N = "fact_name uri ` set (unfiltered uri (map fst raw))"
  have fu: "fix_key (prefix_fmt ''user-data'') = ''ansible_ec2_user_data''"
    and fp: "fix_key (prefix_fmt ''public-key'') = ''ansible_ec2_public_key''"
    by (simp_all add: fix_key_def prefix_fmt_def replace_char_def)
  have k2: "fst ` set ?d2 = {prefix_fmt ''public-key'', prefix_fmt ''user-data''} \<union> fst ` set ?d0"
    by (auto simp: dom_update)
  have c3: "clean_keys ?d3 = ?N \<union> {''ansible_ec2_user_data'', ''ansible_ec2_public_key''}"
    unfolding clean_keys_fix_invalid_varnames k2 image_Un fix_keys_mangle_fields
    by (auto simp: fu fp)
  have n0: "(k, None) \<notin> set ?d0" for k
    using nn values_mangle_fields [of raw uri "[''public-keys-0'']"] by force
  have n2: "k \<in> {prefix_fmt ''public-key'', prefix_fmt ''user-data''}" if "(k, None) \<in> set ?d2" for k
    using that n0 [of k]
      set_update_subset [of "prefix_fmt ''public-key''" p "AList.update (prefix_fmt ''user-data'') u ?d0"]
      set_update_subset [of "prefix_fmt ''user-data''" u ?d0]
    by auto
  have zc: "CHR '':'' \<notin> set ?Z" "CHR ''-'' \<notin> set ?Z" by simp_all
  have zn: "?Z \<noteq> prefix_fmt ''public-key''" "?Z \<noteq> prefix_fmt ''user-data''"
    "?Z \<noteq> ''ansible_ec2_public_key''" "?Z \<noteq> ''ansible_ec2_user_data''"
    by (simp_all add: prefix_fmt_def)
  have n3: "(?Z, None) \<notin> set ?d3"
  proof
    assume "(?Z, None) \<in> set ?d3"
    with set_fix_invalid_varnames [of ?d2]
    consider "(?Z, None) \<in> set ?d2" | k where "(k, None) \<in> set ?d2" "?Z = fix_key k"
      by auto
    then show False
    proof cases
      case 1
      from n2 [OF 1] zn show False by simp
    next
      case 2
      from n2 [OF 2(1)] 2(2) zn fu fp show False by auto
    qed
  qed
  have "dict_get ?d3 ?Z \<noteq> None \<longleftrightarrow> ?Z \<in> fst ` set ?d3"
    using n3 by (rule dict_get_not_None)
  also have "\<dots> \<longleftrightarrow> ?Z \<in> clean_keys ?d3"
    using zc by (simp add: clean_keys_def)
  also have "\<dots> \<longleftrightarrow> ?Z \<in> ?N"
    unfolding c3 using zn by simp
  finally have z: "dict_get ?d3 ?Z \<noteq> None \<longleftrightarrow> ?Z \<in> ?N" .
  show ?thesis
    unfolding clean_keys_add_ec2_region c3 using z
    by (cases "dict_get ?d3 ?Z") auto
qed

lemma card_clean_keys:
  assumes "distinct (map f U @ [a, b, r])"
  shows "card (f ` set U \<union> {a, b} \<union> (if z \<in> f ` set U then {r} else {}))
         = length U + 2 + (if z \<in> f ` set U then 1 else 0)"
proof (cases "z \<in> f ` set U")
  case True
  have "f ` set U \<union> {a, b} \<union> {r} = set (map f U @ [a, b, r])" by auto
  with True distinct_card [OF assms] show ?thesis by simp
next
  case False
  from assms have d: "distinct (map f U @ [a, b])" by auto
  have "f ` set U \<union> {a, b} = set (map f U @ [a, b])" by auto
  with False distinct_card [OF d] show ?thesis by simp
qed

lemma fetch_url_returns:
  assumes "h (length (requests self)) url \<noteq> Timeout"
  shows "\<exists>c. fetch_url h url self = Inr (c, self\<lparr>requests := requests self @ [url]\<rparr>)"
  using assms by (cases "h (length (requests self)) url") (simp_all add: fetch_url_def)

lemma run_after_fetch:
  assumes "fetch fuel h (uri_meta self) True self = Some (Inr self1)"
    and "\<forall>i. h i (uri_user self1) \<noteq> Timeout"
    and "\<forall>i. h i (uri_ssh self1) \<noteq> Timeout"
  shows "\<exists>u p self'. run fuel h self =
           Some (Inr (add_ec2_region (fix_invalid_varnames
             (AList.update (prefix_fmt ''public-key'') p
               (AList.update (prefix_fmt ''user-data'') u
                 (mangle_fields (data self1) (uri_meta self1) [''public-keys-0''])))), self'))"
proof -
  let ?s2 = "self1\<lparr>requests := requests self1 @ [uri_user self1]\<rparr>"
  let ?s3 = "?s2\<lparr>requests := requests ?s2 @ [uri_ssh ?s2]\<rparr>"
  from assms(2) obtain u where u: "fetch_url h (uri_user self1) self1 = Inr (u, ?s2)"
    using fetch_url_returns [of h self1 "uri_user self1"] by blast
  from assms(3) have "h (length (requests ?s2)) (uri_ssh ?s2) \<noteq> Timeout" by simp
  then obtain p where p: "fetch_url h (uri_ssh ?s2) ?s2 = Inr (p, ?s3)"
    using fetch_url_returns [of h ?s2 "uri_ssh ?s2"] by blast
  have "run fuel h self =
           Some (Inr (add_ec2_region (fix_invalid_varnames
             (AList.update (prefix_fmt ''public-key'') p
               (AList.update (prefix_fmt ''user-data'') u
                 (mangle_fields (data self1) (uri_meta self1) [''public-keys-0''])))), ?s3))"
    unfolding run_def using p by (simp add: assms(1) u Let_def)
  then show ?thesis by blast
qed

lemma small_tree_well_formed: "well_formed ''http://host/meta/'' small_tree"
  by (simp add: well_formed_def small_tree_def endswith_def good_name_def newline_def)

lemma small_service_serves: "serves small_service ''http://host/meta/'' small_tree"
  by (simp add: serves_def small_tree_def small_service_def listing_def entry_name_def)

lemma small_tree_leaves:
  "leaves_children ''http://host/meta/'' small_tree =
     [''http://host/meta/instance-id'', ''http://host/meta/placement/availability-zone'',
      ''http://host/meta/security-groups'']"
  by (simp add: small_tree_def)

text \<open>
  Claim C4, as stated, at the tree of \<open>small_service\<close>, with every request answered:
  three leaves and the two supplementary keys make five, the table \<open>run\<close> returns has
  eleven keys.
\<close>

theorem key_count_counterexample:
  "well_formed ''http://host/meta/'' small_tree \<and>
   serves small_service ''http://host/meta/'' small_tree \<and>
   run (Suc (Suc 0)) small_service (init (Some ''http://host/meta/'') None None)
     = Some (Inr (small_flat, small_object)) \<and>
   card (fst ` set small_flat) = 11 \<and>
   length (unfiltered ''http://host/meta/'' (leaves_children ''http://host/meta/'' small_tree)) + 2 = 5"
proof -
  have 1: "card (fst ` set small_flat) = 11" by code_simp
  have 2: "length (unfiltered ''http://host/meta/'' (leaves_children ''http://host/meta/'' small_tree)) + 2 = 5"
    unfolding small_tree_leaves by code_simp
  from small_tree_well_formed small_service_serves run_small_service 1 2 show ?thesis by blast
qed

text \<open>
  Claim C4, amended. For a well-formed tree served at the metadata URI of a fresh
  object, with fuel for its height, and with fact names that do not collide (the cleaned
  names of the unfiltered leaves differ from each other, from the two supplementary names
  and from the region name), and when the requests for the user data and for the public
  key do not stall, \<open>run\<close> returns, and the keys of the returned table that
  contain no colon and no hyphen number the unfiltered leaves plus two, plus one for the
  region when the availability zone is among the leaves.
\<close>

theorem flat_table_key_count:
  assumes "well_formed (uri_meta self) cs"
    and "serves h (uri_meta self) cs"
    and "data self = []"
    and "height_children cs < fuel"
    and "distinct (map (fact_name (uri_meta self))
                    (unfiltered (uri_meta self) (leaves_children (uri_meta self) cs))
                   @ [''ansible_ec2_user_data'', ''ansible_ec2_public_key'',
                      ''ansible_ec2_placement_region''])"
    and "\<forall>i. h i (uri_user self) \<noteq> Timeout"
    and "\<forall>i. h i (uri_ssh self) \<noteq> Timeout"
  shows "\<exists>d self'. run fuel h self = Some (Inr (d, self')) \<and>
           card (clean_keys d) =
             length (unfiltered (uri_meta self) (leaves_children (uri_meta self) cs)) + 2 +
             (if ''ansible_ec2_placement_availability_zone''
                   \<in> fact_name (uri_meta self) `
                       set (unfiltered (uri_meta self) (leaves_children (uri_meta self) cs))
              then 1 else 0)"
proof -
  let ?uri = "uri_meta self"
  let ?L = "leaves_children ?uri cs"
  have "fst ` set (data self) \<inter> set ?L = {}" using assms(3) by simp
  from crawl_top [OF assms(1,2) this assms(4)] obtain self1 :: Ec2Metadata where
    f: "fetch fuel h ?uri True self = Some (Inr self1)" and c: "crawled self ?L self1"
    by blast
  from c assms(3) have k: "set (map fst (data self1)) = set ?L"
    and nn: "None \<notin> snd ` set (data self1)" and u: "uri_meta self1 = ?uri"
    and uu: "uri_user self1 = uri_user self" and us: "uri_ssh self1 = uri_ssh self"
    by (auto simp: crawled_def)
  from assms(6,7) have nt: "\<forall>i. h i (uri_user self1) \<noteq> Timeout"
    "\<forall>i. h i (uri_ssh self1) \<noteq> Timeout"
    unfolding uu us by simp_all
  from run_after_fetch [OF f nt] obtain u p self' where
    r: "run fuel h self =
           Some (Inr (add_ec2_region (fix_invalid_varnames
             (AList.update (prefix_fmt ''public-key'') p
               (AList.update (prefix_fmt ''user-data'') u
                 (mangle_fields (data self1) ?uri [''public-keys-0''])))), self'))"
    unfolding u by blast
  have s: "set (unfiltered ?uri (map fst (data self1))) = set (unfiltered ?uri ?L)"
    using k by (rule set_unfiltered)
  have "card (clean_keys (add_ec2_region (fix_invalid_varnames
             (AList.update (prefix_fmt ''public-key'') p
               (AList.update (prefix_fmt ''user-data'') u
                 (mangle_fields (data self1) ?uri [''public-keys-0'']))))))
        = length (unfiltered ?uri ?L) + 2 +
             (if ''ansible_ec2_placement_availability_zone''
                   \<in> fact_name ?uri ` set (unfiltered ?uri ?L) then 1 else 0)"
    unfolding clean_keys_flat [OF nn] s
    by (rule card_clean_keys [OF assms(5)])
  with r show ?thesis by blast
qed

theorem flat_table_key_count_witness:
  "well_formed ''http://host/meta/'' small_tree \<and>
   serves small_service ''http://host/meta/'' small_tree \<and>
   run (Suc (Suc 0)) small_service (init (Some ''http://host/meta/'') None None)
     = Some (Inr (small_flat, small_object)) \<and>
   card (clean_keys small_flat) = 6"
proof -
  let ?s = "init (Some ''http://host/meta/'') None None"
  have u: "uri_meta ?s = ''http://host/meta/''" by (simp add: init_def or_default_def)
  have d: "data ?s = []" by (simp add: init_def)
  have hgt: "height_children small_tree < Suc (Suc 0)" by (simp add: small_tree_def)
  have un: "unfiltered ''http://host/meta/'' (leaves_children ''http://host/meta/'' small_tree)
      = [''http://host/meta/instance-id'', ''http://host/meta/placement/availability-zone'',
         ''http://host/meta/security-groups'']"
    unfolding small_tree_leaves by code_simp
  have fn: "fact_name ''http://host/meta/'' ''http://host/meta/instance-id''
        = ''ansible_ec2_instance_id''"
    "fact_name ''http://host/meta/'' ''http://host/meta/placement/availability-zone''
        = ''ansible_ec2_placement_availability_zone''"
    "fact_name ''http://host/meta/'' ''http://host/meta/security-groups''
        = ''ansible_ec2_security_groups''"
    by code_simp+
  have dist: "distinct (map (fact_name (uri_meta ?s))
                    (unfiltered (uri_meta ?s) (leaves_children (uri_meta ?s) small_tree))
                   @ [''ansible_ec2_user_data'', ''ansible_ec2_public_key'',
                      ''ansible_ec2_placement_region''])"
    unfolding u un by (simp add: fn)
  have nt: "\<forall>i. small_service i (uri_user ?s) \<noteq> Timeout"
    "\<forall>i. small_service i (uri_ssh ?s) \<noteq> Timeout"
    by (simp_all add: init_def or_default_def small_service_def)
  from flat_table_key_count [of ?s small_tree small_service "Suc (Suc 0)", unfolded u,
      OF small_tree_well_formed small_service_serves d hgt dist [unfolded u] nt]
  have "card (clean_keys small_flat) = 6"
    unfolding un run_small_service by (simp add: fn)
  then show ?thesis
    using small_tree_well_formed small_service_serves run_small_service by blast
qed

end
